theory Spec2Isabelle
  imports Main
begin

section \<open>Values of the object layer\<close>

text \<open>
  The collection of \<^verbatim>\<open>src/collection.js\<close> holds instances of Parse.Object. The
  collection reads three things of such a model: its client id \<^verbatim>\<open>cid\<close> (a string,
  always present), its server id \<^verbatim>\<open>id\<close> (undefined or null until the object is
  saved, a string afterwards) and its attributes through \<^verbatim>\<open>get(attr)\<close>. Two
  references to one JavaScript object are equal values here; two distinct objects
  differ in their client id, which the object layer draws fresh for every instance.
\<close>

datatype jsid = Undefined | Null | Str string

record model =
  cid :: string
  id_m :: jsid
  attributes :: "(string \<times> int) list"

text \<open>\<^verbatim>\<open>model.get(attr)\<close>: the attribute, or undefined (\<open>None\<close>).\<close>

definition model_get :: "model \<Rightarrow> string \<Rightarrow> int option" where
  "model_get m attr = map_of (attributes m) attr"

text \<open>Truthiness of an id (\<^verbatim>\<open>if (model.id)\<close>): a non-empty string.\<close>

fun truthy_id :: "jsid \<Rightarrow> bool" where
  "truthy_id (Str s) = (s \<noteq> [])"
| "truthy_id Undefined = False"
| "truthy_id Null = False"

text \<open>
  Modelled from the spec: \<^verbatim>\<open>Parse._isNullOrUndefined\<close> is not in the source; the
  spec has the check of \<^verbatim>\<open>add\<close> pass over items without a server id, as the name
  of the helper says.
\<close>

fun isNullOrUndefined :: "jsid \<Rightarrow> bool" where
  "isNullOrUndefined (Str s) = False"
| "isNullOrUndefined Undefined = True"
| "isNullOrUndefined Null = True"

text \<open>
  An id used as a property name (\<^verbatim>\<open>ids[id]\<close>, \<^verbatim>\<open>this._byId[model.id]\<close>) is
  converted to a string first: undefined becomes the name \<^verbatim>\<open>undefined\<close>.
\<close>

fun key :: "jsid \<Rightarrow> string" where
  "key (Str s) = s"
| "key Undefined = ''undefined''"
| "key Null = ''null''"

section \<open>Object literals used as dictionaries\<close>

text \<open>
  \<^verbatim>\<open>_byId\<close>, \<^verbatim>\<open>_byCid\<close> and the locals \<^verbatim>\<open>cids\<close>, \<^verbatim>\<open>ids\<close> of \<^verbatim>\<open>add\<close> are
  object literals \<^verbatim>\<open>{}\<close>. Reading \<^verbatim>\<open>d[k]\<close> yields the own property when there is
  one, and otherwise what \<^verbatim>\<open>Object.prototype\<close> defines under that name: a function
  or object, which is truthy. The names below are those of ECMAScript's
  \<^verbatim>\<open>Object.prototype\<close> (with the legacy accessors every engine ships).
\<close>

definition object_prototype :: "string list" where
  "object_prototype =
     [''constructor'', ''toString'', ''toLocaleString'', ''valueOf'',
      ''hasOwnProperty'', ''isPrototypeOf'', ''propertyIsEnumerable'',
      ''__proto__'', ''__defineGetter__'', ''__defineSetter__'',
      ''__lookupGetter__'', ''__lookupSetter__'']"

type_synonym dict = "string \<rightharpoonup> model"

datatype property = Own model | Inherited string | Missing

definition lookup :: "dict \<Rightarrow> string \<Rightarrow> property" where
  "lookup d k =
     (case d k of
        Some m \<Rightarrow> Own m
      | None \<Rightarrow> if k \<in> set object_prototype then Inherited k else Missing)"

fun truthy :: "property \<Rightarrow> bool" where
  "truthy (Own m) = True"
| "truthy (Inherited k) = True"
| "truthy Missing = False"

section \<open>The collection and its surroundings\<close>

text \<open>
  An input of \<^verbatim>\<open>add\<close>, \<^verbatim>\<open>reset\<close> and \<^verbatim>\<open>create\<close> is an instance of
  Parse.Object or a bare attribute object. For a bare object \<^verbatim>\<open>_prepareModel\<close>
  calls the model constructor and \<^verbatim>\<open>_validate\<close>, both of the object layer and
  not in the source: \<open>Bare m v\<close> carries the model the constructor builds and what
  the validation did. A validation that fails returns false after it has reported
  the failure, either by triggering \<^verbatim>\<open>error\<close> on the model or by calling the error
  callback of the options.
\<close>

datatype validation = Valid | InvalidEvent | InvalidCallback

datatype item = Instance model | Bare model validation

fun item_model :: "item \<Rightarrow> model" where
  "item_model (Instance m) = m"
| "item_model (Bare m v) = m"

fun item_valid :: "item \<Rightarrow> bool" where
  "item_valid (Instance m) = True"
| "item_valid (Bare m v) = (v = Valid)"

text \<open>The value of \<^verbatim>\<open>model.collection\<close>, as seen from this collection.\<close>

datatype owner = Unset | This | Other

text \<open>
  The events the functions of this file trigger, on a model
  (\<^verbatim>\<open>model.trigger(...)\<close>) or on the collection (\<^verbatim>\<open>this.trigger(...)\<close>), with the
  model passed along and \<^verbatim>\<open>options.index\<close>.
\<close>

datatype event_name = EvAdd | EvRemove | EvReset | EvSync

datatype emitter = OnModel model | OnCollection

datatype event = Event emitter event_name "model option" "int option"

text \<open>
  A comparator is a function; \<^verbatim>\<open>sort\<close> looks at its arity
  (\<^verbatim>\<open>this.comparator.length === 1\<close>). A one-argument comparator returns the
  criterion of a model: a number, or undefined (\<open>None\<close>). A function of any
  other arity is handed to the array's own sort, which calls it with two models.
  \<^verbatim>\<open>sort\<close> binds and calls the comparator as a function; the property name that
  the documentation of the constructor also allows is not a value of this type.
\<close>

datatype comparator =
  Comparator1 "model \<Rightarrow> int option"
| Comparator2 "model \<Rightarrow> model \<Rightarrow> int"

text \<open>
  The state: the fields of the collection object, and what the collection's
  functions change outside it, namely the back reference \<^verbatim>\<open>model.collection\<close> of
  every model, the registrations of \<^verbatim>\<open>_onModelEvent\<close> on the models' event
  \<^verbatim>\<open>all\<close> (one entry per registration), and the events triggered so far. The
  last field lists the models on which the validation of the object layer,
  called by \<^verbatim>\<open>_prepareModel\<close>, has triggered \<^verbatim>\<open>error\<close>: such a model has just been
  built and is no member, so that no handler of the collection hears it.
\<close>

record collection =
  models :: "model list"
  length_c :: int
  byId :: dict
  byCid :: dict
  comparator :: "comparator option"
  collection_of :: "model \<Rightarrow> owner"
  listeners :: "model list"
  events :: "event list"
  validation_errors :: "model list"

record options =
  at :: "int option"
  silent :: bool
  wait :: bool
  success :: bool

datatype error = InvalidModel | DuplicateCid | DuplicateId | NoComparator | TypeError

text \<open>A call returns, or throws and leaves the state it had reached.\<close>

datatype outcome = Returned collection | Thrown error collection

section \<open>Library functions\<close>

text \<open>
  Modelled from the spec: \<^verbatim>\<open>sortBy\<close> of the utility library (\<^verbatim>\<open>Parse._\<close>) is not
  in the source; the spec has it as a stable sort by the derived key. An undefined
  criterion sorts last.
\<close>

fun insert_by :: "('a \<Rightarrow> 'a \<Rightarrow> bool) \<Rightarrow> 'a \<Rightarrow> 'a list \<Rightarrow> 'a list" where
  "insert_by le x [] = [x]"
| "insert_by le x (y # ys) = (if le x y then x # y # ys else y # insert_by le x ys)"

definition sort_by :: "('a \<Rightarrow> 'a \<Rightarrow> bool) \<Rightarrow> 'a list \<Rightarrow> 'a list" where
  "sort_by le xs = foldr (insert_by le) xs []"

definition criteria_le :: "int option \<Rightarrow> int option \<Rightarrow> bool" where
  "criteria_le a b =
     (case a of
        None \<Rightarrow> b = None
      | Some x \<Rightarrow> (case b of None \<Rightarrow> True | Some y \<Rightarrow> x \<le> y))"

definition sortBy :: "(model \<Rightarrow> int option) \<Rightarrow> model list \<Rightarrow> model list" where
  "sortBy f xs = sort_by (\<lambda>a b. criteria_le (f a) (f b)) xs"

text \<open>
  \<^verbatim>\<open>Array.prototype.sort\<close> with a comparison function. ECMAScript fixes the
  result, the stable sorted order, when the function is a consistent comparison
  function, and leaves the order to the engine otherwise. The definition is the
  insertion sort that engines run on a short array: each element in turn, from
  the left, moves towards the front past the elements before it for as long as
  the function, called with the element and the one before it, returns a negative
  number. On a function that never returns a negative number the array stays as
  it is; on a function that always does, the array is reversed.
\<close>

definition array_sort :: "(model \<Rightarrow> model \<Rightarrow> int) \<Rightarrow> model list \<Rightarrow> model list" where
  "array_sort g xs = rev (foldl (\<lambda>acc x. insert_by (\<lambda>a b. \<not> g a b < 0) x acc) [] xs)"

text \<open>
  \<^verbatim>\<open>Array.prototype.splice\<close>: a negative start counts from the end, and the
  start is clamped to the array.
\<close>

definition splice_start :: "int \<Rightarrow> nat \<Rightarrow> nat" where
  "splice_start start len =
     (if start < 0 then nat (max (int len + start) 0) else min (nat start) len)"

definition splice_insert :: "int \<Rightarrow> 'a list \<Rightarrow> 'a list \<Rightarrow> 'a list" where
  "splice_insert start new xs =
     (let s = splice_start start (length xs) in take s xs @ new @ drop s xs)"

definition splice_delete :: "int \<Rightarrow> 'a list \<Rightarrow> 'a list" where
  "splice_delete start xs =
     (let s = splice_start start (length xs) in take s xs @ drop (Suc s) xs)"

text \<open>
  \<^verbatim>\<open>indexOf\<close>, which the collection takes from the utility library: the first
  position of the model, or -1.
\<close>

fun indexOf :: "model list \<Rightarrow> model \<Rightarrow> int" where
  "indexOf [] x = - 1"
| "indexOf (y # ys) x =
     (if y = x then 0 else (let i = indexOf ys x in if i < 0 then - 1 else i + 1))"

section \<open>Events\<close>

text \<open>
  \<^verbatim>\<open>_onModelEvent(ev, model, collection, options)\<close> for the events of this
  file; \<open>same\<close> says that the collection passed is this one. The branches for
  \<^verbatim>\<open>destroy\<close> and \<^verbatim>\<open>change:objectId\<close> belong to events that only the object
  layer triggers.
\<close>

definition onModelEvent :: "event_name \<Rightarrow> model \<Rightarrow> bool \<Rightarrow> int option \<Rightarrow> collection \<Rightarrow> collection" where
  "onModelEvent ev m same idx c =
     (if (ev = EvAdd \<or> ev = EvRemove) \<and> \<not> same then c
      else c\<lparr>events := events c @ [Event OnCollection ev (Some m) idx]\<rparr>)"

text \<open>
  Modelled from the spec: the event mixin (\<^verbatim>\<open>on\<close>, \<^verbatim>\<open>off\<close>, \<^verbatim>\<open>trigger\<close>) is
  not in the source. \<^verbatim>\<open>target.trigger(ev, m, this, options)\<close> on a model runs the
  handler once per registration of this collection; \<^verbatim>\<open>off\<close> drops every
  registration of the handler.
\<close>

definition trigger_model :: "model \<Rightarrow> event_name \<Rightarrow> model \<Rightarrow> int option \<Rightarrow> collection \<Rightarrow> collection" where
  "trigger_model target ev m idx c =
     ((onModelEvent ev m True idx) ^^ count_list (listeners c) target)
       (c\<lparr>events := events c @ [Event (OnModel target) ev (Some m) idx]\<rparr>)"

definition trigger_collection :: "event_name \<Rightarrow> collection \<Rightarrow> collection" where
  "trigger_collection ev c = c\<lparr>events := events c @ [Event OnCollection ev None None]\<rparr>"

definition model_on :: "model \<Rightarrow> collection \<Rightarrow> collection" where
  "model_on m c = c\<lparr>listeners := listeners c @ [m]\<rparr>"

definition model_off :: "model \<Rightarrow> collection \<Rightarrow> collection" where
  "model_off m c = c\<lparr>listeners := removeAll m (listeners c)\<rparr>"

section \<open>The functions of the collection\<close>

text \<open>
  Names that cannot be written as they are in the source: \<open>reset_internal\<close> is
  \<^verbatim>\<open>_reset\<close>, \<open>prepareModel\<close> is \<^verbatim>\<open>_prepareModel\<close>, \<open>removeReference\<close> is
  \<^verbatim>\<open>_removeReference\<close>, \<open>onModelEvent\<close> is \<^verbatim>\<open>_onModelEvent\<close>, \<open>byId\<close> and \<open>byCid\<close>
  are \<^verbatim>\<open>_byId\<close> and \<^verbatim>\<open>_byCid\<close>, \<open>length_c\<close> is \<^verbatim>\<open>length\<close>, \<open>sort_c\<close> is \<^verbatim>\<open>sort\<close>
  and \<open>id_m\<close> is the \<^verbatim>\<open>id\<close> of a model.
\<close>

definition reset_internal :: "collection \<Rightarrow> collection" where
  "reset_internal c = c\<lparr>length_c := 0, models := [], byId := Map.empty, byCid := Map.empty\<rparr>"

text \<open>
  \<^verbatim>\<open>_prepareModel\<close>. For a bare object line 390 puts this collection into the
  options, from which the constructor of the object layer takes the
  \<^verbatim>\<open>collection\<close> of the model it builds; then comes the validation. The result is
  the model, or false (\<open>None\<close>).
\<close>

definition prepareModel :: "item \<Rightarrow> collection \<Rightarrow> model option \<times> collection" where
  "prepareModel it c =
     (case it of
        Bare m v \<Rightarrow>
          (let c1 = c\<lparr>collection_of := (collection_of c)(m := This)\<rparr>
           in case v of
                Valid \<Rightarrow> (Some m, c1)
              | InvalidEvent \<Rightarrow> (None, c1\<lparr>validation_errors := validation_errors c1 @ [m]\<rparr>)
              | InvalidCallback \<Rightarrow> (None, c1))
      | Instance m \<Rightarrow>
          (Some m,
           if collection_of c m = Unset
           then c\<lparr>collection_of := (collection_of c)(m := This)\<rparr> else c))"

definition removeReference :: "model \<Rightarrow> collection \<Rightarrow> collection" where
  "removeReference m c =
     model_off m
       (if collection_of c m = This
        then c\<lparr>collection_of := (collection_of c)(m := Unset)\<rparr> else c)"

subsection \<open>sort\<close>

text \<open>Lines 224 to 228: by criterion for an arity of one, else the array's own sort.\<close>

definition order_models :: "comparator \<Rightarrow> model list \<Rightarrow> model list" where
  "order_models cmp xs =
     (case cmp of
        Comparator1 f \<Rightarrow> sortBy f xs
      | Comparator2 g \<Rightarrow> array_sort g xs)"

definition sort_c :: "options \<Rightarrow> collection \<Rightarrow> outcome" where
  "sort_c opts c =
     (case comparator c of
        None \<Rightarrow> Thrown NoComparator c
      | Some cmp \<Rightarrow>
          (let c1 = c\<lparr>models := order_models cmp (models c)\<rparr>
           in Returned (if silent opts then c1 else trigger_collection EvReset c1)))"


subsection \<open>add\<close>

text \<open>
  The first loop of \<^verbatim>\<open>add\<close>: prepare each item, refuse an invalid model, refuse a
  client id or an id seen in this call or indexed. It returns the models, the
  local \<^verbatim>\<open>cids\<close> and the state.
\<close>

fun add_check :: "item list \<Rightarrow> dict \<Rightarrow> dict \<Rightarrow> collection \<Rightarrow> error \<times> collection + model list \<times> dict \<times> collection" where
  "add_check [] cids ids c = Inr ([], cids, c)"
| "add_check (it # its) cids ids c =
     (case prepareModel it c of
        (None, c1) \<Rightarrow> Inl (InvalidModel, c1)
      | (Some m, c1) \<Rightarrow>
          if truthy (lookup cids (cid m)) \<or> truthy (lookup (byCid c1) (cid m))
          then Inl (DuplicateCid, c1)
          else if \<not> isNullOrUndefined (id_m m) \<and>
                  (truthy (lookup ids (key (id_m m))) \<or> truthy (lookup (byId c1) (key (id_m m))))
          then Inl (DuplicateId, c1)
          else (case add_check its (cids(cid m \<mapsto> m)) (ids(key (id_m m) \<mapsto> m)) c1 of
                  Inl e \<Rightarrow> Inl e
                | Inr (ms, cids', c2) \<Rightarrow> Inr (m # ms, cids', c2)))"

text \<open>The second loop: listen to each model and index it.\<close>

fun add_index :: "model list \<Rightarrow> collection \<Rightarrow> collection" where
  "add_index [] c = c"
| "add_index (m # ms) c =
     add_index ms
       (let c1 = model_on m c;
            c2 = c1\<lparr>byCid := (byCid c1)(cid m \<mapsto> m)\<rparr>
        in if truthy_id (id_m m) then c2\<lparr>byId := (byId c2)(key (id_m m) \<mapsto> m)\<rparr> else c2)"

text \<open>The last loop: an \<^verbatim>\<open>add\<close> event for each model of this call, at its index.\<close>

fun add_trigger :: "model list \<Rightarrow> int \<Rightarrow> dict \<Rightarrow> collection \<Rightarrow> collection" where
  "add_trigger [] i cids c = c"
| "add_trigger (m # ms) i cids c =
     add_trigger ms (i + 1) cids
       (if truthy (lookup cids (cid m)) then trigger_model m EvAdd m (Some i) c else c)"

text \<open>
  Line 141 in that loop: the value of \<^verbatim>\<open>options.index\<close> when the loop is over,
  \<open>idx\<close> being its value before.
\<close>

fun written_index :: "model list \<Rightarrow> int \<Rightarrow> dict \<Rightarrow> int option \<Rightarrow> int option" where
  "written_index [] i cids idx = idx"
| "written_index (m # ms) i cids idx =
     written_index ms (i + 1) cids (if truthy (lookup cids (cid m)) then Some i else idx)"

definition add :: "item list \<Rightarrow> options \<Rightarrow> collection \<Rightarrow> outcome" where
  "add items opts c =
     (case add_check items Map.empty Map.empty c of
        Inl (e, c1) \<Rightarrow> Thrown e c1
      | Inr (ms, cids, c1) \<Rightarrow>
          (let c2 = add_index ms c1;
               c3 = c2\<lparr>length_c := length_c c2 + int (length ms)\<rparr>;
               index = (case at opts of None \<Rightarrow> int (length (models c3)) | Some i \<Rightarrow> i);
               c4 = c3\<lparr>models := splice_insert index ms (models c3)\<rparr>
           in case (if comparator c4 \<noteq> None
                    then sort_c \<lparr>at = None, silent = True, wait = False, success = False\<rparr> c4
                    else Returned c4) of
                Thrown e c5 \<Rightarrow> Thrown e c5
              | Returned c5 \<Rightarrow>
                  if silent opts then Returned c5
                  else Returned (add_trigger (models c5) 0 cids c5)))"

text \<open>
  The value of \<^verbatim>\<open>options.index\<close> after \<^verbatim>\<open>add(items, options)\<close>, \<open>idx\<close> being its
  value before: only the last loop writes it.
\<close>

definition add_options_index :: "item list \<Rightarrow> options \<Rightarrow> int option \<Rightarrow> collection \<Rightarrow> int option" where
  "add_options_index items opts idx c =
     (case add_check items Map.empty Map.empty c of
        Inl (e, c1) \<Rightarrow> idx
      | Inr (ms, cids, c1) \<Rightarrow>
          (case add items opts c of
             Thrown e c2 \<Rightarrow> idx
           | Returned c2 \<Rightarrow>
               if silent opts then idx else written_index (models c2) 0 cids idx))"

subsection \<open>get and getByCid\<close>

text \<open>
  The argument of \<^verbatim>\<open>get\<close>, \<^verbatim>\<open>getByCid\<close> and \<^verbatim>\<open>remove\<close>: undefined, null, a
  string or a model. The result: one of these, or what \<^verbatim>\<open>Object.prototype\<close>
  holds under a name.
\<close>

datatype arg = AUndefined | ANull | AString string | AModel model

datatype ret = RUndefined | RNull | RString string | RModel model | RInherited string

fun truthy_arg :: "arg \<Rightarrow> bool" where
  "truthy_arg AUndefined = False"
| "truthy_arg ANull = False"
| "truthy_arg (AString s) = (s \<noteq> [])"
| "truthy_arg (AModel m) = True"

fun arg_ret :: "arg \<Rightarrow> ret" where
  "arg_ret AUndefined = RUndefined"
| "arg_ret ANull = RNull"
| "arg_ret (AString s) = RString s"
| "arg_ret (AModel m) = RModel m"

fun truthy_ret :: "ret \<Rightarrow> bool" where
  "truthy_ret RUndefined = False"
| "truthy_ret RNull = False"
| "truthy_ret (RString s) = (s \<noteq> [])"
| "truthy_ret (RModel m) = True"
| "truthy_ret (RInherited k) = True"

fun property_ret :: "property \<Rightarrow> ret" where
  "property_ret (Own m) = RModel m"
| "property_ret (Inherited k) = RInherited k"
| "property_ret Missing = RUndefined"

text \<open>
  \<^verbatim>\<open>id.id || id\<close> and \<^verbatim>\<open>cid.cid || cid\<close> as property names, for a truthy
  argument: a string has neither property; a model without a truthy id (client
  id) is itself the name, which converts to \<^verbatim>\<open>[object Object]\<close>.
\<close>

fun id_key :: "arg \<Rightarrow> string" where
  "id_key (AModel m) = (if truthy_id (id_m m) then key (id_m m) else ''[object Object]'')"
| "id_key (AString s) = s"
| "id_key AUndefined = ''undefined''"
| "id_key ANull = ''null''"

fun cid_key :: "arg \<Rightarrow> string" where
  "cid_key (AModel m) = (if cid m \<noteq> [] then cid m else ''[object Object]'')"
| "cid_key (AString s) = s"
| "cid_key AUndefined = ''undefined''"
| "cid_key ANull = ''null''"

definition get :: "collection \<Rightarrow> arg \<Rightarrow> ret" where
  "get c a = (if truthy_arg a then property_ret (lookup (byId c) (id_key a)) else arg_ret a)"

definition getByCid :: "collection \<Rightarrow> arg \<Rightarrow> ret" where
  "getByCid c a = (if truthy_arg a then property_ret (lookup (byCid c) (cid_key a)) else arg_ret a)"

subsection \<open>remove\<close>

text \<open>
  Lines 168 to 172 of \<^verbatim>\<open>remove\<close> for the value found: delete the two index
  entries under its id and client id, splice one element out at its index,
  decrement the length.
\<close>

definition unlink :: "string \<Rightarrow> string \<Rightarrow> int \<Rightarrow> collection \<Rightarrow> collection" where
  "unlink idk cidk index c =
     c\<lparr>byId := (byId c)(idk := None),
       byCid := (byCid c)(cidk := None),
       models := splice_delete index (models c),
       length_c := length_c c - 1\<rparr>"

text \<open>Line 164: \<^verbatim>\<open>this.getByCid(models[i]) || this.get(models[i])\<close>.\<close>

definition find_model :: "collection \<Rightarrow> arg \<Rightarrow> ret" where
  "find_model c a = (if truthy_ret (getByCid c a) then getByCid c a else get c a)"

text \<open>
  The loop of \<^verbatim>\<open>remove\<close>. A value inherited from \<^verbatim>\<open>Object.prototype\<close> is truthy,
  has no \<^verbatim>\<open>id\<close> and no \<^verbatim>\<open>cid\<close> (both read as undefined), is at no index of
  \<^verbatim>\<open>models\<close> (\<^verbatim>\<open>indexOf\<close> gives -1) and has neither \<^verbatim>\<open>trigger\<close> nor \<^verbatim>\<open>off\<close>:
  after lines 168 to 172 the call of one of them throws a TypeError.
\<close>

fun remove :: "arg list \<Rightarrow> options \<Rightarrow> collection \<Rightarrow> outcome" where
  "remove [] opts c = Returned c"
| "remove (a # as) opts c =
     (case find_model c a of
        RModel m \<Rightarrow>
          (let index = indexOf (models c) m;
               c1 = unlink (key (id_m m)) (cid m) index c;
               c2 = (if \<not> silent opts then trigger_model m EvRemove m (Some index) c1 else c1)
           in remove as opts (removeReference m c2))
      | RInherited k \<Rightarrow>
          Thrown TypeError (unlink (key Undefined) (key Undefined) (- 1) c)
      | RUndefined \<Rightarrow> remove as opts c
      | RNull \<Rightarrow> remove as opts c
      | RString s \<Rightarrow> remove as opts c)"

subsection \<open>reset and the constructor\<close>

definition reset :: "item list option \<Rightarrow> options \<Rightarrow> collection \<Rightarrow> outcome" where
  "reset items opts c =
     (let c1 = fold removeReference (models c) c;
          c2 = reset_internal c1
      in case add (case items of None \<Rightarrow> [] | Some xs \<Rightarrow> xs)
                \<lparr>at = None, silent = True, wait = False, success = False\<rparr> c2 of
           Thrown e c3 \<Rightarrow> Thrown e c3
         | Returned c3 \<Rightarrow> Returned (if silent opts then c3 else trigger_collection EvReset c3))"

text \<open>
  \<^verbatim>\<open>new Parse.Collection(models, options)\<close>: \<open>elsewhere m\<close> says that the model
  \<open>m\<close> already belongs to a collection; no model can refer to the one under
  construction. \<open>fresh\<close> is the object after \<^verbatim>\<open>this._reset()\<close>; \<^verbatim>\<open>initialize\<close> is
  the empty function of the prototype. An empty array of models is truthy.
\<close>

definition fresh :: "comparator option \<Rightarrow> (model \<Rightarrow> bool) \<Rightarrow> collection" where
  "fresh cmp elsewhere =
     reset_internal
       \<lparr>models = [], length_c = 0, byId = Map.empty, byCid = Map.empty,
        comparator = cmp,
        collection_of = (\<lambda>m. if elsewhere m then Other else Unset),
        listeners = [], events = [], validation_errors = []\<rparr>"

definition Collection :: "item list option \<Rightarrow> comparator option \<Rightarrow> (model \<Rightarrow> bool) \<Rightarrow> outcome" where
  "Collection items cmp elsewhere =
     (case items of
        None \<Rightarrow> Returned (fresh cmp elsewhere)
      | Some xs \<Rightarrow>
          reset (Some xs) \<lparr>at = None, silent = True, wait = False, success = False\<rparr>
            (fresh cmp elsewhere))"

subsection \<open>create\<close>

text \<open>
  \<^verbatim>\<open>create\<close> returns false or the model, or throws what \<^verbatim>\<open>add\<close> throws. It
  works on a copy of the caller's options, which it passes to \<^verbatim>\<open>_prepareModel\<close>,
  to \<^verbatim>\<open>add\<close> and to \<^verbatim>\<open>model.save\<close>, and which the function it stores as
  \<^verbatim>\<open>options.success\<close> refers to. \<^verbatim>\<open>model.save\<close> belongs to the object layer and
  calls that function when the save has succeeded, with the saved model:
  \<open>create_success\<close>. The field \<open>success\<close> of the options says that the caller
  passed a success callback of its own. The options of the caller carry no
  \<^verbatim>\<open>index\<close>; the outcome of \<open>create\<close> has the \<^verbatim>\<open>index\<close> that the call leaves in
  its copy, which \<open>create_success\<close> takes as \<open>idx\<close>.
\<close>

datatype create_outcome =
  ReturnedFalse collection
| ReturnedModel model "int option" collection
| CreateThrown error collection

definition create :: "item \<Rightarrow> options \<Rightarrow> collection \<Rightarrow> create_outcome" where
  "create it opts c =
     (case prepareModel it c of
        (None, c1) \<Rightarrow> ReturnedFalse c1
      | (Some m, c1) \<Rightarrow>
          if \<not> wait opts
          then (case add [Instance m] opts c1 of
                  Thrown e c2 \<Rightarrow> CreateThrown e c2
                | Returned c2 \<Rightarrow>
                    ReturnedModel m (add_options_index [Instance m] opts None c1) c2)
          else ReturnedModel m None c1)"

definition create_success :: "model \<Rightarrow> options \<Rightarrow> int option \<Rightarrow> model \<Rightarrow> collection \<Rightarrow> outcome" where
  "create_success m opts idx nextModel c =
     (case (if wait opts then add [Instance nextModel] opts c else Returned c) of
        Thrown e c1 \<Rightarrow> Thrown e c1
      | Returned c1 \<Rightarrow>
          Returned
            (if success opts then c1
             else trigger_model nextModel EvSync m
                    (if wait opts then add_options_index [Instance nextModel] opts idx c else idx)
                    c1))"

section \<open>Reading an outcome; example values\<close>

fun returned :: "outcome \<Rightarrow> bool" where
  "returned (Returned c) = True"
| "returned (Thrown e c) = False"

fun state_of :: "outcome \<Rightarrow> collection" where
  "state_of (Returned c) = c"
| "state_of (Thrown e c) = c"

fun thrown :: "outcome \<Rightarrow> error option" where
  "thrown (Returned c) = None"
| "thrown (Thrown e c) = Some e"

fun created :: "create_outcome \<Rightarrow> collection" where
  "created (ReturnedFalse c) = c"
| "created (ReturnedModel m idx c) = c"
| "created (CreateThrown e c) = c"

definition no_options :: options where
  "no_options = \<lparr>at = None, silent = False, wait = False, success = False\<rparr>"

definition wait_options :: options where
  "wait_options = \<lparr>at = None, silent = False, wait = True, success = False\<rparr>"

definition nowhere :: "model \<Rightarrow> bool" where
  "nowhere m = False"

definition empty_collection :: collection where
  "empty_collection = fresh None nowhere"

definition m1 :: model where
  "m1 = \<lparr>cid = ''c1'', id_m = Str ''x1'', attributes = [(''rank'', 3)]\<rparr>"

definition m2 :: model where
  "m2 = \<lparr>cid = ''c2'', id_m = Undefined, attributes = [(''rank'', 1)]\<rparr>"

definition m3 :: model where
  "m3 = \<lparr>cid = ''c3'', id_m = Null, attributes = [(''rank'', 2)]\<rparr>"

definition m4 :: model where
  "m4 = \<lparr>cid = ''c4'', id_m = Undefined, attributes = []\<rparr>"

definition two_members :: collection where
  "two_members = state_of (add [Instance m1, Instance m2] no_options empty_collection)"


definition rank_of :: "model \<Rightarrow> int" where
  "rank_of x = (case model_get x ''rank'' of None \<Rightarrow> 0 | Some r \<Rightarrow> r)"


section \<open>Notions the properties are stated with\<close>

text \<open>
  The fields of the collection object, the registrations and the events are the
  same in both states; only back references \<^verbatim>\<open>model.collection\<close> and the record
  of the validation errors may differ.
\<close>

definition frame :: "collection \<Rightarrow> collection \<Rightarrow> bool" where
  "frame c c1 \<longleftrightarrow>
     models c1 = models c \<and> length_c c1 = length_c c \<and> byId c1 = byId c \<and>
     byCid c1 = byCid c \<and> comparator c1 = comparator c \<and> listeners c1 = listeners c \<and>
     events c1 = events c"

text \<open>
  The inputs of an \<^verbatim>\<open>add\<close> hold a duplicate: two items share a client id, or
  share a non-empty id, or an item has the client id or the non-empty id of an
  indexed member.
\<close>

definition duplicate :: "item list \<Rightarrow> collection \<Rightarrow> bool" where
  "duplicate its c \<longleftrightarrow>
     \<not> distinct (map (\<lambda>it. cid (item_model it)) its) \<or>
     \<not> distinct (filter truthy_id (map (\<lambda>it. id_m (item_model it)) its)) \<or>
     (\<exists>it\<in>set its.
        byCid c (cid (item_model it)) \<noteq> None \<or>
        (truthy_id (id_m (item_model it)) \<and> byId c (key (id_m (item_model it))) \<noteq> None))"

text \<open>
  The data model's invariant as far as the operations rely on it: the cached
  length is the number of models, and an index entry stands under the id (client
  id) of its model, which is a member.
\<close>

definition consistent :: "collection \<Rightarrow> bool" where
  "consistent c \<longleftrightarrow>
     length_c c = int (length (models c)) \<and>
     (\<forall>k m. byCid c k = Some m \<longrightarrow> k = cid m \<and> m \<in> set (models c)) \<and>
     (\<forall>k m. byId c k = Some m \<longrightarrow> k = key (id_m m) \<and> m \<in> set (models c))"

text \<open>
  What the first loop of \<^verbatim>\<open>add\<close> has against an item, said of the input alone:
  \<open>earlier\<close> are the models of the items before it. An item that fails
  validation is invalid; else its client id clashes when an earlier item or an
  indexed member has it, or when it is a name inherited from
  \<^verbatim>\<open>Object.prototype\<close>; else its id, unless null or undefined, clashes when it
  is, as a property name, the id of an earlier item or of an indexed member, or
  an inherited name. \<open>refusal its c i\<close> is the error for the item at position \<open>i\<close>.
\<close>

definition cid_clash :: "model list \<Rightarrow> collection \<Rightarrow> model \<Rightarrow> bool" where
  "cid_clash earlier c m \<longleftrightarrow>
     cid m \<in> cid ` set earlier \<or> byCid c (cid m) \<noteq> None \<or> cid m \<in> set object_prototype"

definition id_clash :: "model list \<Rightarrow> collection \<Rightarrow> model \<Rightarrow> bool" where
  "id_clash earlier c m \<longleftrightarrow>
     \<not> isNullOrUndefined (id_m m) \<and>
     (key (id_m m) \<in> (\<lambda>x. key (id_m x)) ` set earlier \<or> byId c (key (id_m m)) \<noteq> None \<or>
      key (id_m m) \<in> set object_prototype)"

definition refuse :: "model list \<Rightarrow> collection \<Rightarrow> item \<Rightarrow> error option" where
  "refuse earlier c it =
     (if \<not> item_valid it then Some InvalidModel
      else if cid_clash earlier c (item_model it) then Some DuplicateCid
      else if id_clash earlier c (item_model it) then Some DuplicateId
      else None)"

definition refusal :: "item list \<Rightarrow> collection \<Rightarrow> nat \<Rightarrow> error option" where
  "refusal its c i = refuse (map item_model (take i its)) c (its ! i)"

text \<open>
  The models are in the order of the comparator. For a comparison function of
  two arguments ECMAScript says when the array's sort has a defined result: when
  the function is a consistent comparison function. Writing \<open>a < b\<close>, \<open>a = b\<close> and
  \<open>a > b\<close> for a negative, zero and positive result on \<open>a\<close> and \<open>b\<close>: \<open>a = a\<close>; \<open>a = b\<close>
  implies \<open>b = a\<close>; and each of the three relations is transitive.
\<close>

definition in_order :: "comparator \<Rightarrow> model list \<Rightarrow> bool" where
  "in_order cmp xs =
     (case cmp of
        Comparator1 f \<Rightarrow> sorted_wrt (\<lambda>a b. criteria_le (f a) (f b)) xs
      | Comparator2 g \<Rightarrow> sorted_wrt (\<lambda>a b. g a b \<le> 0) xs)"

definition consistent_function :: "(model \<Rightarrow> model \<Rightarrow> int) \<Rightarrow> bool" where
  "consistent_function g \<longleftrightarrow>
     (\<forall>a. g a a = 0) \<and>
     (\<forall>a b. g a b = 0 \<longrightarrow> g b a = 0) \<and>
     (\<forall>a b c. g a b = 0 \<longrightarrow> g b c = 0 \<longrightarrow> g a c = 0) \<and>
     (\<forall>a b c. g a b < 0 \<longrightarrow> g b c < 0 \<longrightarrow> g a c < 0) \<and>
     (\<forall>a b c. g a b > 0 \<longrightarrow> g b c > 0 \<longrightarrow> g a c > 0)"

text \<open>
  A comparator of one argument is no comparison function: \<^verbatim>\<open>sortBy\<close> compares the
  criteria itself.
\<close>

definition consistent_comparator :: "comparator \<Rightarrow> bool" where
  "consistent_comparator cmp =
     (case cmp of
        Comparator1 f \<Rightarrow> True
      | Comparator2 g \<Rightarrow> consistent_function g)"

section \<open>add: the checking loop and its errors\<close>

lemma frame_refl: "frame c c"
  by (simp add: frame_def)

lemma frame_trans: "frame a b \<Longrightarrow> frame b c \<Longrightarrow> frame a c"
  by (simp add: frame_def)

lemma prepareModel_frame: "frame c (snd (prepareModel it c))"
  by (cases it) (simp_all add: prepareModel_def frame_def Let_def split: validation.splits)

lemma prepareModel_fst:
  "fst (prepareModel it c) = (if item_valid it then Some (item_model it) else None)"
  by (cases it) (simp_all add: prepareModel_def Let_def split: validation.splits)

lemma add_check_Cons:
  "add_check (it # its) cids ids c =
     (let m = item_model it; c1 = snd (prepareModel it c) in
      if \<not> item_valid it then Inl (InvalidModel, c1)
      else if truthy (lookup cids (cid m)) \<or> truthy (lookup (byCid c) (cid m))
      then Inl (DuplicateCid, c1)
      else if \<not> isNullOrUndefined (id_m m) \<and>
              (truthy (lookup ids (key (id_m m))) \<or> truthy (lookup (byId c) (key (id_m m))))
      then Inl (DuplicateId, c1)
      else (case add_check its (cids(cid m \<mapsto> m)) (ids(key (id_m m) \<mapsto> m)) c1 of
              Inl e \<Rightarrow> Inl e
            | Inr (ms, cids', c2) \<Rightarrow> Inr (m # ms, cids', c2)))"
proof -
  obtain r c1 where p: "prepareModel it c = (r, c1)" by (cases "prepareModel it c")
  have r: "r = (if item_valid it then Some (item_model it) else None)"
    using prepareModel_fst [of it c] p by simp
  have f: "byCid c1 = byCid c" "byId c1 = byId c"
    using prepareModel_frame [of c it] p by (simp_all add: frame_def)
  show ?thesis using p r f by (simp add: Let_def)
qed

lemma add_check_frame:
  "(add_check its cids ids c = Inl (e, c1) \<longrightarrow> frame c c1) \<and>
   (add_check its cids ids c = Inr (ms, cids', c1) \<longrightarrow> frame c c1)"
proof (induction its arbitrary: cids ids c ms)
  case Nil
  show ?case by (simp add: frame_refl)
next
  case (Cons it its)
  let ?c0 = "snd (prepareModel it c)"
  have f0: "frame c ?c0" by (rule prepareModel_frame)
  show ?case
    using Cons.IH f0
    by (auto simp: add_check_Cons Let_def simp del: add_check.simps
          split: if_splits sum.splits prod.splits intro: frame_trans)
qed


lemma truthy_lookup: "truthy (lookup d k) \<longleftrightarrow> d k \<noteq> None \<or> k \<in> set object_prototype"
  by (auto simp: lookup_def split: option.splits)

lemma truthy_not_null: "truthy_id i \<Longrightarrow> \<not> isNullOrUndefined i"
  by (cases i) simp_all

lemma key_inj_on_str: "\<not> isNullOrUndefined i \<Longrightarrow> \<not> isNullOrUndefined j \<Longrightarrow> key i = key j \<Longrightarrow> i = j"
  by (cases i; cases j) simp_all

lemma add_check_Inr:
  "add_check its cids ids c = Inr (ms, cids', c1) \<Longrightarrow>
     ms = map item_model its \<and> list_all item_valid its \<and>
     cids' = fold (\<lambda>m d. d(cid m \<mapsto> m)) ms cids \<and>
     distinct (map cid ms) \<and>
     (\<forall>m\<in>set ms. cids (cid m) = None \<and> byCid c (cid m) = None \<and> cid m \<notin> set object_prototype) \<and>
     distinct (filter (\<lambda>i. \<not> isNullOrUndefined i) (map id_m ms)) \<and>
     (\<forall>m\<in>set ms. \<not> isNullOrUndefined (id_m m) \<longrightarrow>
        ids (key (id_m m)) = None \<and> byId c (key (id_m m)) = None \<and>
        key (id_m m) \<notin> set object_prototype)"
proof (induction its arbitrary: cids ids c ms)
  case Nil
  then show ?case by simp
next
  case (Cons it its)
  let ?m = "item_model it"
  let ?c0 = "snd (prepareModel it c)"
  from Cons.prems obtain ms' where
    v: "item_valid it" and
    nc: "\<not> truthy (lookup cids (cid ?m))" "\<not> truthy (lookup (byCid c) (cid ?m))" and
    ni: "isNullOrUndefined (id_m ?m) \<or> (\<not> truthy (lookup ids (key (id_m ?m))) \<and> \<not> truthy (lookup (byId c) (key (id_m ?m))))" and
    r: "add_check its (cids(cid ?m \<mapsto> ?m)) (ids(key (id_m ?m) \<mapsto> ?m)) ?c0 = Inr (ms', cids', c1)" and
    ms: "ms = ?m # ms'"
    by (auto simp: add_check_Cons Let_def simp del: add_check.simps
          split: if_splits sum.splits prod.splits)
  have f0: "byCid ?c0 = byCid c" "byId ?c0 = byId c"
    using prepareModel_frame [of c it] by (simp_all add: frame_def)
  note ih = Cons.IH [OF r, unfolded f0]
  have 1: "ms = map item_model (it # its)" using ih ms by simp
  have 2: "list_all item_valid (it # its)" using ih v by simp
  have 3: "cids' = fold (\<lambda>m d. d(cid m \<mapsto> m)) ms cids"
    using ih [THEN conjunct2, THEN conjunct2, THEN conjunct1] ms by (simp del: fun_upd_apply)
  have 4: "distinct (map cid ms)" using ih ms by (auto split: if_splits)
  have 5: "\<forall>m\<in>set ms. cids (cid m) = None \<and> byCid c (cid m) = None \<and> cid m \<notin> set object_prototype"
    using ih ms nc by (auto simp: truthy_lookup split: if_splits)
  have 6: "distinct (filter (\<lambda>i. \<not> isNullOrUndefined i) (map id_m ms))"
  proof -
    have "\<forall>m'\<in>set ms'. \<not> isNullOrUndefined (id_m m') \<longrightarrow> key (id_m m') \<noteq> key (id_m ?m)"
      using ih by (auto split: if_splits)
    then have "\<not> isNullOrUndefined (id_m ?m) \<Longrightarrow> id_m ?m \<notin> set (filter (\<lambda>i. \<not> isNullOrUndefined i) (map id_m ms'))"
      by auto
    then show ?thesis using ih ms by auto
  qed
  have 7: "\<forall>m\<in>set ms. \<not> isNullOrUndefined (id_m m) \<longrightarrow>
        ids (key (id_m m)) = None \<and> byId c (key (id_m m)) = None \<and>
        key (id_m m) \<notin> set object_prototype"
    using ih ms ni by (auto simp: truthy_lookup split: if_splits)
  from 1 2 3 4 5 6 7 show ?case by blast
qed

lemma add_check_errors:
  "add_check its cids ids c = Inl (e, c1) \<Longrightarrow>
     (e = DuplicateCid \<or> e = DuplicateId \<or> (e = InvalidModel \<and> \<not> list_all item_valid its))"
proof (induction its arbitrary: cids ids c)
  case Nil
  then show ?case by simp
next
  case (Cons it its)
  then show ?case
    by (fastforce simp: add_check_Cons Let_def simp del: add_check.simps
          split: if_splits sum.splits prod.splits)
qed

lemma add_check_DuplicateId:
  "add_check its cids ids c = Inl (DuplicateId, c1) \<Longrightarrow>
     \<exists>it\<in>set its. \<not> isNullOrUndefined (id_m (item_model it))"
proof (induction its arbitrary: cids ids c)
  case Nil
  then show ?case by simp
next
  case (Cons it its)
  then show ?case
    by (fastforce simp: add_check_Cons Let_def simp del: add_check.simps
          split: if_splits sum.splits prod.splits)
qed

lemma add_check_total:
  "(\<exists>e c1. add_check its cids ids c = Inl (e, c1)) \<or>
   (\<exists>ms cids' c1. add_check its cids ids c = Inr (ms, cids', c1))"
  by (cases "add_check its cids ids c") auto

lemma duplicate_refused:
  assumes "duplicate its c"
  shows "\<exists>e c1. add_check its Map.empty Map.empty c = Inl (e, c1)"
proof (rule ccontr)
  assume "\<not> ?thesis"
  with add_check_total [of its Map.empty Map.empty c] obtain ms cids' c1
    where r: "add_check its Map.empty Map.empty c = Inr (ms, cids', c1)" by blast
  note a = add_check_Inr [OF r]
  have ms: "ms = map item_model its" using a by simp
  have d1: "distinct (map (\<lambda>it. cid (item_model it)) its)"
    using a ms by (simp add: comp_def)
  have "distinct (filter (\<lambda>i. \<not> isNullOrUndefined i) (map (\<lambda>it. id_m (item_model it)) its))"
    using a ms by (simp add: comp_def)
  then have "distinct (filter truthy_id (filter (\<lambda>i. \<not> isNullOrUndefined i) (map (\<lambda>it. id_m (item_model it)) its)))"
    by (rule distinct_filter)
  moreover have "filter truthy_id (filter (\<lambda>i. \<not> isNullOrUndefined i) (map (\<lambda>it. id_m (item_model it)) its))
      = filter truthy_id (map (\<lambda>it. id_m (item_model it)) its)"
    by (auto simp: truthy_not_null intro: filter_cong)
  ultimately have d2: "distinct (filter truthy_id (map (\<lambda>it. id_m (item_model it)) its))" by simp
  have d3: "\<forall>it\<in>set its. byCid c (cid (item_model it)) = None \<and>
        (truthy_id (id_m (item_model it)) \<longrightarrow> byId c (key (id_m (item_model it))) = None)"
    using a ms by (auto simp: truthy_not_null)
  from assms d1 d2 d3 show False by (auto simp: duplicate_def)
qed

lemma add_Thrown:
  assumes "add its opts c = Thrown e c'"
  shows "add_check its Map.empty Map.empty c = Inl (e, c')"
  using assms
  by (auto simp: add_def Let_def sort_c_def split: sum.splits prod.splits if_splits option.splits)

lemma add_of_Inl:
  "add_check its Map.empty Map.empty c = Inl (e, c1) \<Longrightarrow> add its opts c = Thrown e c1"
  by (simp add: add_def)

section \<open>add: the item that is refused\<close>

text \<open>
  The checking loop stops at the first item that \<open>refuse\<close> has something
  against, with that error: the locals \<^verbatim>\<open>cids\<close> and \<^verbatim>\<open>ids\<close> hold the client ids
  and the ids of the items before.
\<close>

lemma refuse_cong:
  "byCid c1 = byCid c \<Longrightarrow> byId c1 = byId c \<Longrightarrow> refuse earlier c1 it = refuse earlier c it"
  by (simp add: refuse_def cid_clash_def id_clash_def)

lemma add_check_refuse:
  assumes "dom cids = cid ` set pre" and "dom ids = (\<lambda>x. key (id_m x)) ` set pre"
  shows "add_check its cids ids c = Inl (e, c1) \<Longrightarrow>
     \<exists>i<length its. refuse (pre @ map item_model (take i its)) c (its ! i) = Some e \<and>
        (\<forall>j<i. refuse (pre @ map item_model (take j its)) c (its ! j) = None)"
  using assms
proof (induction its arbitrary: cids ids c pre)
  case Nil
  then show ?case by simp
next
  case (Cons it its)
  let ?m = "item_model it"
  let ?c0 = "snd (prepareModel it c)"
  have f0: "byCid ?c0 = byCid c" "byId ?c0 = byId c"
    using prepareModel_frame [of c it] by (simp_all add: frame_def)
  have tc: "truthy (lookup cids (cid ?m)) \<or> truthy (lookup (byCid c) (cid ?m)) \<longleftrightarrow> cid_clash pre c ?m"
    using Cons.prems(2) by (auto simp: truthy_lookup cid_clash_def domIff)
  have ti: "\<not> isNullOrUndefined (id_m ?m) \<and>
        (truthy (lookup ids (key (id_m ?m))) \<or> truthy (lookup (byId c) (key (id_m ?m))))
      \<longleftrightarrow> id_clash pre c ?m"
    using Cons.prems(3) by (auto simp: truthy_lookup id_clash_def domIff)
  show ?case
  proof (cases "refuse pre c it")
    case (Some e')
    then have "add_check (it # its) cids ids c = Inl (e', ?c0)"
      using tc ti
      by (auto simp: add_check_Cons Let_def refuse_def simp del: add_check.simps split: if_splits)
    with Cons.prems(1) have "e' = e" by simp
    with Some show ?thesis by (intro exI [of _ 0]) simp
  next
    case None
    then have v: "item_valid it" "\<not> cid_clash pre c ?m" "\<not> id_clash pre c ?m"
      by (auto simp: refuse_def split: if_splits)
    with Cons.prems(1) tc ti
    have r: "add_check its (cids(cid ?m \<mapsto> ?m)) (ids(key (id_m ?m) \<mapsto> ?m)) ?c0 = Inl (e, c1)"
      by (auto simp: add_check_Cons Let_def simp del: add_check.simps
            split: if_splits sum.splits prod.splits)
    have d1: "dom (cids(cid ?m \<mapsto> ?m)) = cid ` set (pre @ [?m])"
      using Cons.prems(2) by auto
    have d2: "dom (ids(key (id_m ?m) \<mapsto> ?m)) = (\<lambda>x. key (id_m x)) ` set (pre @ [?m])"
      using Cons.prems(3) by auto
    from Cons.IH [OF r d1 d2] obtain i where i: "i < length its"
      "refuse ((pre @ [?m]) @ map item_model (take i its)) ?c0 (its ! i) = Some e"
      "\<forall>j<i. refuse ((pre @ [?m]) @ map item_model (take j its)) ?c0 (its ! j) = None"
      by blast
    have k: "refuse (pre @ map item_model (take (Suc j) (it # its))) c ((it # its) ! Suc j) =
          refuse ((pre @ [?m]) @ map item_model (take j its)) ?c0 (its ! j)" for j
      by (simp add: refuse_cong [OF f0])
    have "\<forall>j<Suc i. refuse (pre @ map item_model (take j (it # its))) c ((it # its) ! j) = None"
    proof (intro allI impI)
      fix j assume "j < Suc i"
      show "refuse (pre @ map item_model (take j (it # its))) c ((it # its) ! j) = None"
      proof (cases j)
        case 0
        with None show ?thesis by simp
      next
        case (Suc j')
        with \<open>j < Suc i\<close> i(3) k [of j'] show ?thesis by simp
      qed
    qed
    moreover have "refuse (pre @ map item_model (take (Suc i) (it # its))) c ((it # its) ! Suc i) = Some e"
      using k [of i] i(2) by simp
    ultimately show ?thesis using i(1) by (intro exI [of _ "Suc i"]) simp
  qed
qed

lemma add_check_refusal:
  assumes "add_check its Map.empty Map.empty c = Inl (e, c1)"
  shows "\<exists>i<length its. refusal its c i = Some e \<and> (\<forall>j<i. refusal its c j = None)"
  using add_check_refuse [of Map.empty "[]" Map.empty its c e c1] assms
  by (simp add: refusal_def)

section \<open>Sorting\<close>

lemma set_insert_by: "set (insert_by le x xs) = insert x (set xs)"
  by (induction xs) auto

lemma length_insert_by: "length (insert_by le x xs) = Suc (length xs)"
  by (induction xs) auto

lemma set_sort_by: "set (sort_by le xs) = set xs"
  by (induction xs) (simp_all add: sort_by_def set_insert_by)

lemma length_sort_by: "length (sort_by le xs) = length xs"
  by (induction xs) (simp_all add: sort_by_def length_insert_by)

lemma sorted_insert_by:
  assumes total: "\<And>a b. le a b \<or> le b a"
    and trans: "\<And>a b c. le a b \<Longrightarrow> le b c \<Longrightarrow> le a c"
  shows "sorted_wrt le xs \<Longrightarrow> sorted_wrt le (insert_by le x xs)"
proof (induction xs)
  case Nil
  then show ?case by simp
next
  case (Cons y ys)
  show ?case
  proof (cases "le x y")
    case True
    then have "\<forall>z\<in>set ys. le x z" using Cons.prems trans by auto
    with True Cons.prems show ?thesis by simp
  next
    case False
    then have "le y x" using total by blast
    with False Cons show ?thesis by (auto simp: set_insert_by)
  qed
qed

lemma sorted_sort_by:
  assumes "\<And>a b. le a b \<or> le b a" and "\<And>a b c. le a b \<Longrightarrow> le b c \<Longrightarrow> le a c"
  shows "sorted_wrt le (sort_by le xs)"
proof (induction xs)
  case Nil
  show ?case by (simp add: sort_by_def)
next
  case (Cons x xs)
  have "sort_by le (x # xs) = insert_by le x (sort_by le xs)" by (simp add: sort_by_def)
  with sorted_insert_by [of le, OF assms Cons] show ?case by simp
qed

lemma criteria_le_total: "criteria_le a b \<or> criteria_le b a"
  by (auto simp: criteria_le_def split: option.splits)

lemma criteria_le_trans: "criteria_le a b \<Longrightarrow> criteria_le b c \<Longrightarrow> criteria_le a c"
  by (auto simp: criteria_le_def split: option.splits)

lemma array_sort_sort_by:
  "array_sort g xs = rev (sort_by (\<lambda>a b. \<not> g a b < 0) (rev xs))"
  by (simp add: array_sort_def sort_by_def foldl_conv_foldr)

lemma set_array_sort: "set (array_sort g xs) = set xs"
  by (simp add: array_sort_sort_by set_sort_by)

lemma length_array_sort: "length (array_sort g xs) = length xs"
  by (simp add: array_sort_sort_by length_sort_by)

lemma consistent_functionD:
  assumes "consistent_function g"
  shows "g a a = 0" and "g a b = 0 \<Longrightarrow> g b a = 0"
    and "g a b = 0 \<Longrightarrow> g b c = 0 \<Longrightarrow> g a c = 0"
    and "g a b < 0 \<Longrightarrow> g b c < 0 \<Longrightarrow> g a c < 0"
    and "g a b > 0 \<Longrightarrow> g b c > 0 \<Longrightarrow> g a c > 0"
  using assms unfolding consistent_function_def by blast+

lemma consistent_flip:
  assumes c: "consistent_function g"
  shows "g a b < 0 \<longleftrightarrow> g b a > 0"
proof
  assume l: "g a b < 0"
  show "g b a > 0"
  proof (rule ccontr)
    assume "\<not> g b a > 0"
    then consider "g b a = 0" | "g b a < 0" by linarith
    then show False
    proof cases
      case 1
      from consistent_functionD(2) [OF c 1] l show False by simp
    next
      case 2
      from consistent_functionD(4) [OF c l 2] consistent_functionD(1) [OF c, of a]
      show False by simp
    qed
  qed
next
  assume l: "g b a > 0"
  show "g a b < 0"
  proof (rule ccontr)
    assume "\<not> g a b < 0"
    then consider "g a b = 0" | "g a b > 0" by linarith
    then show False
    proof cases
      case 1
      from consistent_functionD(2) [OF c 1] l show False by simp
    next
      case 2
      from consistent_functionD(5) [OF c 2 l] consistent_functionD(1) [OF c, of a]
      show False by simp
    qed
  qed
qed

lemma consistent_trans:
  assumes c: "consistent_function g"
    and ab: "\<not> g a b < 0" and bc: "\<not> g b c < 0"
  shows "\<not> g a c < 0"
proof
  assume ac: "g a c < 0"
  then have ca: "g c a > 0" using consistent_flip [OF c, of a c] by simp
  from ab consider "g a b = 0" | "g a b > 0" by linarith
  then show False
  proof cases
    case 1
    from bc consider "g b c = 0" | "g b c > 0" by linarith
    then show False
    proof cases
      case 1
      from consistent_functionD(3) [OF c \<open>g a b = 0\<close> 1] ac show False by simp
    next
      case 2
      from consistent_functionD(5) [OF c 2 ca] have "g b a > 0" .
      with consistent_functionD(2) [OF c \<open>g a b = 0\<close>] show False by simp
    qed
  next
    case 2
    from consistent_functionD(5) [OF c ca 2] have cb: "g c b > 0" .
    then have "g b c < 0" using consistent_flip [OF c, of b c] by simp
    with bc show False by simp
  qed
qed

lemma sorted_array_sort:
  assumes c: "consistent_function g"
  shows "sorted_wrt (\<lambda>a b. g a b \<le> 0) (array_sort g xs)"
proof -
  let ?le = "\<lambda>a b. \<not> g a b < 0"
  have "sorted_wrt ?le (sort_by ?le (rev xs))"
  proof (rule sorted_sort_by)
    show "\<not> g a b < 0 \<or> \<not> g b a < 0" for a b
      using consistent_flip [OF c, of a b] by linarith
    show "\<not> g a b < 0 \<Longrightarrow> \<not> g b c < 0 \<Longrightarrow> \<not> g a c < 0" for a b c
      by (rule consistent_trans [OF c])
  qed
  then have s: "sorted_wrt (\<lambda>a b. \<not> g b a < 0) (array_sort g xs)"
    by (simp add: array_sort_sort_by sorted_wrt_rev)
  have "\<not> g b a < 0 \<Longrightarrow> g a b \<le> 0" for a b
    using consistent_flip [OF c, of a b] consistent_functionD(2) [OF c, of b a] by linarith
  with s show ?thesis by (rule sorted_wrt_mono_rel [rotated]) blast
qed

lemma set_order_models: "set (order_models cmp xs) = set xs"
  by (cases cmp) (simp_all add: order_models_def sortBy_def set_array_sort set_sort_by)

lemma length_order_models: "length (order_models cmp xs) = length xs"
  by (cases cmp) (simp_all add: order_models_def sortBy_def length_array_sort length_sort_by)

lemma in_order_order_models:
  assumes "consistent_comparator cmp"
  shows "in_order cmp (order_models cmp xs)"
proof (cases cmp)
  case (Comparator1 f)
  have "sorted_wrt (\<lambda>a b. criteria_le (f a) (f b)) (sort_by (\<lambda>a b. criteria_le (f a) (f b)) xs)"
  proof (rule sorted_sort_by)
    show "criteria_le (f a) (f b) \<or> criteria_le (f b) (f a)" for a b
      by (rule criteria_le_total)
    show "criteria_le (f a) (f b) \<Longrightarrow> criteria_le (f b) (f c) \<Longrightarrow> criteria_le (f a) (f c)" for a b c
      by (rule criteria_le_trans)
  qed
  with Comparator1 show ?thesis by (simp add: in_order_def order_models_def sortBy_def)
next
  case (Comparator2 g)
  with assms have "consistent_function g"
    by (simp add: consistent_comparator_def)
  then have "sorted_wrt (\<lambda>a b. g a b \<le> 0) (array_sort g xs)"
    by (rule sorted_array_sort)
  with Comparator2 show ?thesis by (simp add: in_order_def order_models_def)
qed

text \<open>
  Two comparison functions that are not consistent: the sort reverses the array
  under the first and leaves it as it is under the second.
\<close>

lemma array_sort_not_consistent:
  "\<not> consistent_function (\<lambda>a b. - 1) \<and>
   array_sort (\<lambda>a b. - 1) [m1, m2, m3] = [m3, m2, m1] \<and>
   \<not> consistent_function (\<lambda>a b. if rank_of a > rank_of b then 1 else 0) \<and>
   array_sort (\<lambda>a b. if rank_of a > rank_of b then 1 else 0) [m1, m2, m3] = [m1, m2, m3]"
proof -
  let ?g = "\<lambda>a b. if rank_of a > rank_of b then (1::int) else 0"
  have 1: "\<not> consistent_function (\<lambda>a b. - 1)"
    by (simp add: consistent_function_def)
  have "?g m2 m1 = 0" "?g m1 m2 \<noteq> 0"
    by (simp_all add: rank_of_def model_get_def m1_def m2_def)
  then have 2: "\<not> consistent_function ?g"
    unfolding consistent_function_def by blast
  have 3: "array_sort (\<lambda>a b. - 1) [m1, m2, m3] = [m3, m2, m1]"
    by (simp add: array_sort_def)
  have 4: "array_sort ?g [m1, m2, m3] = [m1, m2, m3]"
    by (simp add: array_sort_def rank_of_def model_get_def m1_def m2_def m3_def)
  from 1 2 3 4 show ?thesis by blast
qed

section \<open>splice and indexOf\<close>

lemma splice_start_le: "splice_start start len \<le> len"
  by (auto simp: splice_start_def)

lemma length_splice_insert: "length (splice_insert start new xs) = length xs + length new"
  using splice_start_le [of start "length xs"] by (simp add: splice_insert_def Let_def)

lemma set_splice_insert: "set (splice_insert start new xs) = set xs \<union> set new"
proof -
  have "set (take n xs) \<union> set (drop n xs) = set xs" for n
    by (metis append_take_drop_id set_append)
  then show ?thesis by (auto simp: splice_insert_def Let_def)
qed

lemma indexOf_member: "x \<in> set xs \<Longrightarrow> 0 \<le> indexOf xs x \<and> nat (indexOf xs x) < length xs \<and>
    xs ! nat (indexOf xs x) = x \<and> splice_delete (indexOf xs x) xs = remove1 x xs"
proof (induction xs)
  case Nil
  then show ?case by simp
next
  case (Cons y ys)
  show ?case
  proof (cases "y = x")
    case True
    then show ?thesis by (simp add: splice_delete_def splice_start_def)
  next
    case False
    with Cons have ih: "0 \<le> indexOf ys x" "nat (indexOf ys x) < length ys"
      "ys ! nat (indexOf ys x) = x" "splice_delete (indexOf ys x) ys = remove1 x ys"
      by auto
    have n: "nat (indexOf ys x + 1) = Suc (nat (indexOf ys x))" using ih(1) by simp
    have s: "splice_start (indexOf ys x) (length ys) = nat (indexOf ys x)"
      using ih by (simp add: splice_start_def)
    have s': "splice_start (indexOf ys x + 1) (Suc (length ys)) = Suc (nat (indexOf ys x))"
      using ih by (auto simp: splice_start_def n)
    show ?thesis using False ih n s s' by (simp add: Let_def splice_delete_def)
  qed
qed

lemma indexOf_absent: "x \<notin> set xs \<Longrightarrow> indexOf xs x = - 1"
  by (induction xs) (auto simp: Let_def)

section \<open>What triggering an event leaves alone\<close>

text \<open>Everything but the events is the same in both states.\<close>

lemma onModelEvent_fields:
  "models (onModelEvent ev m same idx c) = models c"
  "length_c (onModelEvent ev m same idx c) = length_c c"
  "byId (onModelEvent ev m same idx c) = byId c"
  "byCid (onModelEvent ev m same idx c) = byCid c"
  "comparator (onModelEvent ev m same idx c) = comparator c"
  "listeners (onModelEvent ev m same idx c) = listeners c"
  "collection_of (onModelEvent ev m same idx c) = collection_of c"
  by (simp_all add: onModelEvent_def)

lemma onModelEvent_pow_fields:
  "models ((onModelEvent ev m same idx ^^ n) c) = models c"
  "length_c ((onModelEvent ev m same idx ^^ n) c) = length_c c"
  "byId ((onModelEvent ev m same idx ^^ n) c) = byId c"
  "byCid ((onModelEvent ev m same idx ^^ n) c) = byCid c"
  "comparator ((onModelEvent ev m same idx ^^ n) c) = comparator c"
  "listeners ((onModelEvent ev m same idx ^^ n) c) = listeners c"
  "collection_of ((onModelEvent ev m same idx ^^ n) c) = collection_of c"
  by (induction n) (simp_all add: onModelEvent_fields)

lemma trigger_model_fields:
  "models (trigger_model t ev m idx c) = models c"
  "length_c (trigger_model t ev m idx c) = length_c c"
  "byId (trigger_model t ev m idx c) = byId c"
  "byCid (trigger_model t ev m idx c) = byCid c"
  "comparator (trigger_model t ev m idx c) = comparator c"
  "listeners (trigger_model t ev m idx c) = listeners c"
  "collection_of (trigger_model t ev m idx c) = collection_of c"
  by (simp_all add: trigger_model_def onModelEvent_pow_fields)

lemma trigger_collection_fields:
  "models (trigger_collection ev c) = models c"
  "length_c (trigger_collection ev c) = length_c c"
  "byId (trigger_collection ev c) = byId c"
  "byCid (trigger_collection ev c) = byCid c"
  "comparator (trigger_collection ev c) = comparator c"
  "listeners (trigger_collection ev c) = listeners c"
  "collection_of (trigger_collection ev c) = collection_of c"
  "events (trigger_collection ev c) = events c @ [Event OnCollection ev None None]"
  by (simp_all add: trigger_collection_def)

lemma add_trigger_fields:
  "models (add_trigger ms i cids c) = models c"
  "length_c (add_trigger ms i cids c) = length_c c"
  "byId (add_trigger ms i cids c) = byId c"
  "byCid (add_trigger ms i cids c) = byCid c"
  "comparator (add_trigger ms i cids c) = comparator c"
  "listeners (add_trigger ms i cids c) = listeners c"
  "collection_of (add_trigger ms i cids c) = collection_of c"
  by (induction ms arbitrary: i c) (simp_all add: trigger_model_fields)

section \<open>add: the indexing loop\<close>

lemma add_index_fields:
  "models (add_index ms c) = models c"
  "length_c (add_index ms c) = length_c c"
  "comparator (add_index ms c) = comparator c"
  "events (add_index ms c) = events c"
  "collection_of (add_index ms c) = collection_of c"
  "listeners (add_index ms c) = listeners c @ ms"
  by (induction ms arbitrary: c) (simp_all add: model_on_def Let_def)

lemma add_index_byCid:
  "byCid (add_index ms c) = fold (\<lambda>m d. d(cid m \<mapsto> m)) ms (byCid c)"
  by (induction ms arbitrary: c) (simp_all add: model_on_def Let_def)

lemma add_index_byId:
  "byId (add_index ms c) =
     fold (\<lambda>m d. if truthy_id (id_m m) then d(key (id_m m) \<mapsto> m) else d) ms (byId c)"
  by (induction ms arbitrary: c) (simp_all add: model_on_def Let_def)

text \<open>Entries written by a loop of conditional assignments \<open>d[k m] = m\<close>.\<close>

lemma fold_upd_cases:
  "fold (\<lambda>m d. if P m then d(k m \<mapsto> m) else d) ms d x = Some y \<Longrightarrow>
     d x = Some y \<or> (y \<in> set ms \<and> P y \<and> k y = x)"
proof (induction ms arbitrary: d)
  case Nil
  then show ?case by simp
next
  case (Cons a ms)
  let ?d = "if P a then d(k a \<mapsto> a) else d"
  from Cons.prems have "fold (\<lambda>m d. if P m then d(k m \<mapsto> m) else d) ms ?d x = Some y"
    by simp
  from Cons.IH [OF this] have "?d x = Some y \<or> (y \<in> set ms \<and> P y \<and> k y = x)" .
  then show ?case by (auto split: if_splits)
qed

lemma fold_upd_member_aux:
  "d (k m) = Some m \<or> m \<in> set ms \<Longrightarrow> P m \<Longrightarrow>
   \<forall>m'\<in>set ms. P m' \<and> k m' = k m \<longrightarrow> m' = m \<Longrightarrow>
     fold (\<lambda>m d. if P m then d(k m \<mapsto> m) else d) ms d (k m) = Some m"
proof (induction ms arbitrary: d)
  case Nil
  then show ?case by simp
next
  case (Cons a ms)
  let ?d = "if P a then d(k a \<mapsto> a) else d"
  have 1: "?d (k m) = Some m \<or> m \<in> set ms" using Cons.prems by auto
  have 2: "\<forall>m'\<in>set ms. P m' \<and> k m' = k m \<longrightarrow> m' = m" using Cons.prems by simp
  from Cons.IH [of ?d] 1 Cons.prems(2) 2 show ?case by simp
qed

lemma fold_upd_member:
  assumes "m \<in> set ms" "P m" "\<forall>m'\<in>set ms. P m' \<and> k m' = k m \<longrightarrow> m' = m"
  shows "fold (\<lambda>m d. if P m then d(k m \<mapsto> m) else d) ms d (k m) = Some m"
  using fold_upd_member_aux [of d k m ms P] assms by blast

lemma distinct_map_unique:
  "distinct (map f xs) \<Longrightarrow> x \<in> set xs \<Longrightarrow> y \<in> set xs \<Longrightarrow> f x = f y \<Longrightarrow> x = y"
  by (meson distinct_map inj_onD)

section \<open>sort\<close>

lemma sort_c_Some:
  "comparator c = Some cmp \<Longrightarrow>
     sort_c opts c =
       Returned (if silent opts then c\<lparr>models := order_models cmp (models c)\<rparr>
                 else trigger_collection EvReset (c\<lparr>models := order_models cmp (models c)\<rparr>))"
  by (simp add: sort_c_def Let_def)

lemma sort_c_None: "comparator c = None \<Longrightarrow> sort_c opts c = Thrown NoComparator c"
  by (simp add: sort_c_def)

section \<open>A call of add that returns\<close>

lemma add_shape:
  assumes "add_check its Map.empty Map.empty c = Inr (ms, cids, c1)"
  shows "add its opts c =
     Returned
      (let c4 = (add_index ms c1)
             \<lparr>length_c := length_c c + int (length ms),
              models := splice_insert
                 (case at opts of None \<Rightarrow> int (length (models c)) | Some i \<Rightarrow> i) ms (models c)\<rparr>;
           c5 = (case comparator c of
                   None \<Rightarrow> c4
                 | Some cmp \<Rightarrow> c4\<lparr>models := order_models cmp (models c4)\<rparr>)
       in if silent opts then c5 else add_trigger (models c5) 0 cids c5)"
proof -
  have f: "frame c c1" using add_check_frame [of its Map.empty Map.empty c _ c1 ms cids] assms by simp
  then have g: "models c1 = models c" "length_c c1 = length_c c" "comparator c1 = comparator c"
    by (simp_all add: frame_def)
  show ?thesis
  proof (cases "comparator c")
    case None
    with assms g show ?thesis
      by (cases "at opts") (simp_all add: add_def Let_def add_index_fields)
  next
    case (Some cmp)
    with assms g show ?thesis
      by (cases "at opts") (simp_all add: add_def Let_def add_index_fields sort_c_Some)
  qed
qed

lemma add_Returned:
  assumes "add its opts c = Returned c'"
  shows "\<exists>cids c1. add_check its Map.empty Map.empty c = Inr (map item_model its, cids, c1)"
proof -
  from add_check_total [of its Map.empty Map.empty c] show ?thesis
  proof
    assume "\<exists>e c1. add_check its Map.empty Map.empty c = Inl (e, c1)"
    then obtain e c1 where "add_check its Map.empty Map.empty c = Inl (e, c1)" by blast
    from add_of_Inl [OF this, of opts] assms show ?thesis by simp
  next
    assume "\<exists>ms cids' c1. add_check its Map.empty Map.empty c = Inr (ms, cids', c1)"
    then obtain ms cids' c1 where r: "add_check its Map.empty Map.empty c = Inr (ms, cids', c1)"
      by blast
    from add_check_Inr [OF r] have "ms = map item_model its" by simp
    with r show ?thesis by blast
  qed
qed

lemma add_Returned_fields:
  assumes "add its opts c = Returned c'"
  shows "length_c c' = length_c c + int (length its)"
    and "length (models c') = length (models c) + length its"
    and "set (models c') = set (models c) \<union> item_model ` set its"
    and "comparator c' = comparator c"
    and "listeners c' = listeners c @ map item_model its"
    and "byCid c' = fold (\<lambda>m d. d(cid m \<mapsto> m)) (map item_model its) (byCid c)"
    and "byId c' = fold (\<lambda>m d. if truthy_id (id_m m) then d(key (id_m m) \<mapsto> m) else d)
                     (map item_model its) (byId c)"
    and "comparator c = None \<Longrightarrow>
           models c' = splice_insert
              (case at opts of None \<Rightarrow> int (length (models c)) | Some i \<Rightarrow> i)
              (map item_model its) (models c)"
    and "comparator c = Some cmp \<Longrightarrow> consistent_comparator cmp \<Longrightarrow> in_order cmp (models c')"
    and "silent opts \<Longrightarrow> events c' = events c"
proof -
  from add_Returned [OF assms] obtain cids c1
    where r: "add_check its Map.empty Map.empty c = Inr (map item_model its, cids, c1)" by blast
  have f: "frame c c1"
    using add_check_frame [of its Map.empty Map.empty c _ c1 "map item_model its" cids] r by simp
  then have g: "models c1 = models c" "length_c c1 = length_c c" "comparator c1 = comparator c"
    "byCid c1 = byCid c" "byId c1 = byId c" "listeners c1 = listeners c" "events c1 = events c"
    by (simp_all add: frame_def)
  note s = add_shape [OF r, of opts]
  from s assms have c': "c' =
      (let c4 = (add_index (map item_model its) c1)
             \<lparr>length_c := length_c c + int (length (map item_model its)),
              models := splice_insert
                 (case at opts of None \<Rightarrow> int (length (models c)) | Some i \<Rightarrow> i)
                 (map item_model its) (models c)\<rparr>;
           c5 = (case comparator c of
                   None \<Rightarrow> c4
                 | Some cmp \<Rightarrow> c4\<lparr>models := order_models cmp (models c4)\<rparr>)
       in if silent opts then c5 else add_trigger (models c5) 0 cids c5)"
    by simp
  show "length_c c' = length_c c + int (length its)"
    by (simp add: c' Let_def add_trigger_fields split: option.splits)
  show "length (models c') = length (models c) + length its"
    by (simp add: c' Let_def add_trigger_fields length_order_models length_splice_insert
          split: option.splits)
  show "set (models c') = set (models c) \<union> item_model ` set its"
    by (simp add: c' Let_def add_trigger_fields set_order_models set_splice_insert
          split: option.splits)
  show "comparator c' = comparator c"
    by (simp add: c' Let_def add_trigger_fields add_index_fields g split: option.splits)
  show "listeners c' = listeners c @ map item_model its"
    by (simp add: c' Let_def add_trigger_fields add_index_fields g split: option.splits)
  show "byCid c' = fold (\<lambda>m d. d(cid m \<mapsto> m)) (map item_model its) (byCid c)"
    by (simp add: c' Let_def add_trigger_fields add_index_byCid g split: option.splits)
  show "byId c' = fold (\<lambda>m d. if truthy_id (id_m m) then d(key (id_m m) \<mapsto> m) else d)
                     (map item_model its) (byId c)"
    by (simp add: c' Let_def add_trigger_fields add_index_byId g split: option.splits)
  show "comparator c = None \<Longrightarrow>
           models c' = splice_insert
              (case at opts of None \<Rightarrow> int (length (models c)) | Some i \<Rightarrow> i)
              (map item_model its) (models c)"
    by (simp add: c' Let_def add_trigger_fields)
  show "comparator c = Some cmp \<Longrightarrow> consistent_comparator cmp \<Longrightarrow> in_order cmp (models c')"
    by (simp add: c' Let_def add_trigger_fields in_order_order_models)
  show "silent opts \<Longrightarrow> events c' = events c"
    by (simp add: c' Let_def add_index_fields g split: option.splits)
qed

section \<open>Back references and registrations\<close>

lemma prepareModel_collection_of:
  "collection_of (snd (prepareModel it c)) x =
     (if (it = Instance x \<and> collection_of c x = Unset) \<or> (\<exists>v. it = Bare x v) then This
      else collection_of c x)"
  by (cases it) (auto simp: prepareModel_def Let_def split: validation.splits)

lemma add_check_collection_of:
  "add_check its cids ids c = Inr (ms, cids', c1) \<Longrightarrow>
     collection_of c1 x =
       (if (Instance x \<in> set its \<and> collection_of c x = Unset) \<or> (\<exists>v. Bare x v \<in> set its)
        then This else collection_of c x)"
proof (induction its arbitrary: cids ids c ms)
  case Nil
  then show ?case by simp
next
  case (Cons it its)
  let ?m = "item_model it"
  let ?c0 = "snd (prepareModel it c)"
  from Cons.prems obtain ms' where
    r: "add_check its (cids(cid ?m \<mapsto> ?m)) (ids(key (id_m ?m) \<mapsto> ?m)) ?c0 = Inr (ms', cids', c1)"
    by (auto simp: add_check_Cons Let_def simp del: add_check.simps
          split: if_splits sum.splits prod.splits)
  from Cons.IH [OF r] show ?case
    by (auto simp: prepareModel_collection_of)
qed

lemma add_Returned_collection_of:
  assumes "add its opts c = Returned c'"
  shows "collection_of c' x =
       (if (Instance x \<in> set its \<and> collection_of c x = Unset) \<or> (\<exists>v. Bare x v \<in> set its)
        then This else collection_of c x)"
proof -
  from add_Returned [OF assms] obtain cids c1
    where r: "add_check its Map.empty Map.empty c = Inr (map item_model its, cids, c1)" by blast
  from add_shape [OF r, of opts] assms have "collection_of c' = collection_of c1"
    by (auto simp: Let_def add_trigger_fields add_index_fields split: option.splits if_splits)
  with add_check_collection_of [OF r] show ?thesis by simp
qed

lemma removeReference_fields:
  "models (removeReference m c) = models c"
  "length_c (removeReference m c) = length_c c"
  "byId (removeReference m c) = byId c"
  "byCid (removeReference m c) = byCid c"
  "comparator (removeReference m c) = comparator c"
  "events (removeReference m c) = events c"
  "listeners (removeReference m c) = removeAll m (listeners c)"
  "collection_of (removeReference m c) x =
     (if x = m \<and> collection_of c m = This then Unset else collection_of c x)"
  by (simp_all add: removeReference_def model_off_def)

lemma fold_removeReference_fields:
  "models (fold removeReference ms c) = models c"
  "length_c (fold removeReference ms c) = length_c c"
  "byId (fold removeReference ms c) = byId c"
  "byCid (fold removeReference ms c) = byCid c"
  "comparator (fold removeReference ms c) = comparator c"
  "events (fold removeReference ms c) = events c"
  "listeners (fold removeReference ms c) = filter (\<lambda>x. x \<notin> set ms) (listeners c)"
  "collection_of (fold removeReference ms c) x =
     (if x \<in> set ms \<and> collection_of c x = This then Unset else collection_of c x)"
proof (induction ms arbitrary: c)
  case Nil
  { case 1 show ?case by simp next
    case 2 show ?case by simp next
    case 3 show ?case by simp next
    case 4 show ?case by simp next
    case 5 show ?case by simp next
    case 6 show ?case by simp next
    case 7 show ?case by simp next
    case 8 show ?case by simp }
next
  case (Cons m ms)
  { case 1 show ?case by (simp add: Cons.IH removeReference_fields) next
    case 2 show ?case by (simp add: Cons.IH removeReference_fields) next
    case 3 show ?case by (simp add: Cons.IH removeReference_fields) next
    case 4 show ?case by (simp add: Cons.IH removeReference_fields) next
    case 5 show ?case by (simp add: Cons.IH removeReference_fields) next
    case 6 show ?case by (simp add: Cons.IH removeReference_fields) next
    case 7 show ?case
      by (simp add: Cons.IH removeReference_fields removeAll_filter_not_eq filter_filter conj_commute
            cong: filter_cong) (rule filter_cong, auto)
  next
    case 8 show ?case by (auto simp: Cons.IH removeReference_fields) }
qed

section \<open>The invariant\<close>

lemma consistent_add:
  assumes "consistent c" "add its opts c = Returned c'"
  shows "consistent c'"
proof -
  note f = add_Returned_fields [OF assms(2)]
  have 1: "length_c c' = int (length (models c'))"
    using assms(1) f(1,2) by (simp add: consistent_def)
  have 2: "k = cid m \<and> m \<in> set (models c')" if "byCid c' k = Some m" for k m
  proof -
    from that have "fold (\<lambda>m d. if True then d(cid m \<mapsto> m) else d) (map item_model its) (byCid c) k = Some m"
      by (simp add: f(6))
    from fold_upd_cases [OF this] assms(1) show ?thesis
      by (auto simp: f(3) consistent_def)
  qed
  have 3: "k = key (id_m m) \<and> m \<in> set (models c')" if "byId c' k = Some m" for k m
  proof -
    from that have "fold (\<lambda>m d. if truthy_id (id_m m) then d(key (id_m m) \<mapsto> m) else d)
        (map item_model its) (byId c) k = Some m"
      by (simp add: f(7))
    from fold_upd_cases [OF this] assms(1) show ?thesis
      by (auto simp: f(3) consistent_def)
  qed
  from 1 2 3 show ?thesis unfolding consistent_def by blast
qed

lemma consistent_sort:
  assumes "consistent c" "sort_c opts c = Returned c'"
  shows "consistent c'"
proof (cases "comparator c")
  case None
  with assms show ?thesis by (simp add: sort_c_None)
next
  case (Some cmp)
  from sort_c_Some [OF Some, of opts] assms(2)
  have "models c' = order_models cmp (models c)" "length_c c' = length_c c"
    "byCid c' = byCid c" "byId c' = byId c"
    by (auto simp: trigger_collection_fields split: if_splits)
  with assms(1) show ?thesis
    by (simp add: consistent_def set_order_models length_order_models)
qed

lemma consistent_reset_internal: "consistent (reset_internal c)"
  by (simp add: consistent_def reset_internal_def)

lemma reset_Returned:
  assumes "reset xs opts c = Returned c'"
  shows "\<exists>c3. add (case xs of None \<Rightarrow> [] | Some ys \<Rightarrow> ys)
                 \<lparr>at = None, silent = True, wait = False, success = False\<rparr>
                 (reset_internal (fold removeReference (models c) c)) = Returned c3 \<and>
              c' = (if silent opts then c3 else trigger_collection EvReset c3)"
  using assms by (auto simp: reset_def Let_def split: outcome.splits)

lemma consistent_reset:
  assumes "reset xs opts c = Returned c'"
  shows "consistent c'"
proof -
  from reset_Returned [OF assms] obtain c3 where
    a: "add (case xs of None \<Rightarrow> [] | Some ys \<Rightarrow> ys)
          \<lparr>at = None, silent = True, wait = False, success = False\<rparr>
          (reset_internal (fold removeReference (models c) c)) = Returned c3"
    and c': "c' = (if silent opts then c3 else trigger_collection EvReset c3)" by blast
  from consistent_add [OF consistent_reset_internal a] have "consistent c3" .
  then show ?thesis by (simp add: c' consistent_def trigger_collection_fields)
qed

lemma consistent_Collection:
  assumes "Collection xs cmp elsewhere = Returned c'"
  shows "consistent c'"
proof (cases xs)
  case None
  with assms show ?thesis by (auto simp: Collection_def fresh_def consistent_reset_internal)
next
  case (Some ys)
  with assms show ?thesis by (auto simp: Collection_def intro: consistent_reset)
qed

text \<open>What \<^verbatim>\<open>this.getByCid(x) || this.get(x)\<close> finds is an index entry.\<close>

lemma found_model:
  assumes "find_model c a = RModel m"
  shows "(\<exists>k. byCid c k = Some m) \<or> (\<exists>k. byId c k = Some m)"
proof -
  have t: "truthy_arg a" using assms
    by (cases a) (auto simp: find_model_def get_def getByCid_def split: if_splits)
  have p: "property_ret (lookup d k) = RModel m \<Longrightarrow> d k = Some m" for d k
    by (auto simp: lookup_def split: option.splits if_splits)
  from assms t show ?thesis
    by (auto simp: find_model_def get_def getByCid_def split: if_splits dest: p)
qed

lemma consistent_unlink:
  assumes "consistent c" "m \<in> set (models c)"
  shows "consistent (unlink (key (id_m m)) (cid m) (indexOf (models c) m) c)"
proof -
  let ?c1 = "unlink (key (id_m m)) (cid m) (indexOf (models c) m) c"
  from indexOf_member [OF assms(2)]
  have s: "splice_delete (indexOf (models c) m) (models c) = remove1 m (models c)" by simp
  have ms: "models ?c1 = remove1 m (models c)" by (simp add: unlink_def s)
  have n: "length (models c) > 0" using assms(2) by (cases "models c") auto
  have lc: "length_c ?c1 = length_c c - 1" by (simp add: unlink_def)
  have "length (remove1 m (models c)) = length (models c) - 1"
    using assms(2) by (simp add: length_remove1)
  moreover have "int (length (models c) - 1) = int (length (models c)) - 1"
    using n by (cases "models c") simp_all
  ultimately have "int (length (remove1 m (models c))) = int (length (models c)) - 1"
    by presburger
  with assms(1) have 1: "length_c ?c1 = int (length (models ?c1))"
    unfolding ms lc by (simp add: consistent_def)
  have 2: "k = cid x \<and> x \<in> set (models ?c1)" if "byCid ?c1 k = Some x" for k x
  proof -
    from that have k: "k \<noteq> cid m" "byCid c k = Some x"
      by (auto simp: unlink_def split: if_splits)
    with assms(1) have kx: "k = cid x" "x \<in> set (models c)" by (auto simp: consistent_def)
    with k have "x \<noteq> m" by auto
    with kx show ?thesis by (simp add: ms)
  qed
  have 3: "k = key (id_m x) \<and> x \<in> set (models ?c1)" if "byId ?c1 k = Some x" for k x
  proof -
    from that have k: "k \<noteq> key (id_m m)" "byId c k = Some x"
      by (auto simp: unlink_def split: if_splits)
    with assms(1) have kx: "k = key (id_m x)" "x \<in> set (models c)"
      by (auto simp: consistent_def)
    with k have "x \<noteq> m" by auto
    with kx show ?thesis by (simp add: ms)
  qed
  from 1 2 3 show ?thesis unfolding consistent_def by blast
qed

subsection \<open>The steps of remove\<close>

lemma remove_Cons_model:
  "find_model c a = RModel m \<Longrightarrow>
     remove (a # as) opts c =
       remove as opts
         (removeReference m
            (if \<not> silent opts
             then trigger_model m EvRemove m (Some (indexOf (models c) m))
                    (unlink (key (id_m m)) (cid m) (indexOf (models c) m) c)
             else unlink (key (id_m m)) (cid m) (indexOf (models c) m) c))"
  by (simp add: Let_def)

lemma remove_Cons_inherited:
  "find_model c a = RInherited k \<Longrightarrow>
     remove (a # as) opts c = Thrown TypeError (unlink (key Undefined) (key Undefined) (- 1) c)"
  by simp

lemma remove_Cons_skip:
  "\<not> truthy_ret (find_model c a) \<Longrightarrow> remove (a # as) opts c = remove as opts c"
  by (cases "find_model c a") simp_all

lemma get_not_truthy_string: "get c a \<noteq> RString (x # xs)"
proof (cases "truthy_arg a")
  case True
  then show ?thesis by (cases "lookup (byId c) (id_key a)") (simp_all add: get_def)
next
  case False
  then show ?thesis by (cases a) (simp_all add: get_def)
qed

lemma getByCid_not_truthy_string: "getByCid c a \<noteq> RString (x # xs)"
proof (cases "truthy_arg a")
  case True
  then show ?thesis by (cases "lookup (byCid c) (cid_key a)") (simp_all add: getByCid_def)
next
  case False
  then show ?thesis by (cases a) (simp_all add: getByCid_def)
qed

lemma truthy_find_model:
  assumes "truthy_ret (find_model c a)"
  shows "(\<exists>m. find_model c a = RModel m) \<or> (\<exists>k. find_model c a = RInherited k)"
proof (cases "find_model c a")
  case (RString s)
  with assms obtain x xs where "find_model c a = RString (x # xs)" by (cases s) auto
  then have "get c a = RString (x # xs) \<or> getByCid c a = RString (x # xs)"
    by (auto simp: find_model_def split: if_splits)
  with get_not_truthy_string getByCid_not_truthy_string show ?thesis by blast
next
  case RUndefined with assms show ?thesis by simp
next
  case RNull with assms show ?thesis by simp
next
  case (RModel m) then show ?thesis by simp
next
  case (RInherited k) then show ?thesis by simp
qed

subsection \<open>remove keeps the invariant\<close>

lemma consistent_cong:
  "models c' = models c \<Longrightarrow> length_c c' = length_c c \<Longrightarrow> byId c' = byId c \<Longrightarrow>
   byCid c' = byCid c \<Longrightarrow> consistent c' = consistent c"
  by (simp add: consistent_def)

lemma consistent_remove:
  "consistent c \<Longrightarrow> remove as opts c = Returned c' \<Longrightarrow> consistent c'"
proof (induction as arbitrary: c)
  case Nil
  then show ?case by simp
next
  case (Cons a as)
  show ?case
  proof (cases "truthy_ret (find_model c a)")
    case False
    from remove_Cons_skip [OF False, of as opts] Cons.prems(2)
    have "remove as opts c = Returned c'" by simp
    from Cons.IH [OF Cons.prems(1) this] show ?thesis .
  next
    case True
    from truthy_find_model [OF True] show ?thesis
    proof
      assume "\<exists>m. find_model c a = RModel m"
      then obtain m where fm: "find_model c a = RModel m" by blast
      from found_model [OF fm] Cons.prems(1) have mem: "m \<in> set (models c)"
        by (auto simp: consistent_def)
      let ?c1 = "unlink (key (id_m m)) (cid m) (indexOf (models c) m) c"
      let ?c2 = "if \<not> silent opts then trigger_model m EvRemove m (Some (indexOf (models c) m)) ?c1 else ?c1"
      have c1: "consistent ?c1" using Cons.prems(1) mem by (rule consistent_unlink)
      have "consistent (removeReference m ?c2) = consistent ?c1"
        by (rule consistent_cong) (simp_all add: removeReference_fields trigger_model_fields)
      with c1 have c3: "consistent (removeReference m ?c2)" by blast
      from remove_Cons_model [OF fm, of as opts] Cons.prems(2)
      have "remove as opts (removeReference m ?c2) = Returned c'" by simp
      from Cons.IH [OF c3 this] show ?thesis .
    next
      assume "\<exists>k. find_model c a = RInherited k"
      then obtain k where "find_model c a = RInherited k" by blast
      from remove_Cons_inherited [OF this, of as opts] Cons.prems(2) show ?thesis by simp
    qed
  qed
qed

lemma returned_state: "returned r \<Longrightarrow> r = Returned (state_of r)"
  by (cases r) simp_all

lemma consistent_length: "consistent c \<Longrightarrow> length_c c = int (length (models c))"
  by (simp add: consistent_def)


section \<open>reset\<close>

lemma unique_by_filter:
  assumes "distinct (filter P (map f xs))" "x \<in> set xs" "y \<in> set xs" "P (f x)" "f x = f y"
  shows "x = y"
proof -
  have "filter P (map f xs) = map f (filter (\<lambda>x. P (f x)) xs)"
    by (simp add: filter_map comp_def)
  with assms(1) have "inj_on f (set (filter (\<lambda>x. P (f x)) xs))"
    by (simp add: distinct_map)
  moreover have "x \<in> set (filter (\<lambda>x. P (f x)) xs)" "y \<in> set (filter (\<lambda>x. P (f x)) xs)"
    using assms by simp_all
  ultimately show ?thesis using assms(5) by (meson inj_onD)
qed

lemma add_Returned_byCid:
  assumes "add its opts c = Returned c'" "m \<in> item_model ` set its"
  shows "byCid c' (cid m) = Some m"
proof -
  from add_Returned [OF assms(1)] obtain cids c1
    where r: "add_check its Map.empty Map.empty c = Inr (map item_model its, cids, c1)" by blast
  from add_check_Inr [OF r] have d: "distinct (map cid (map item_model its))" by blast
  have u: "\<forall>m'\<in>set (map item_model its). True \<and> cid m' = cid m \<longrightarrow> m' = m"
    using distinct_map_unique [OF d] assms(2) by auto
  have "fold (\<lambda>m d. if True then d(cid m \<mapsto> m) else d) (map item_model its) (byCid c) (cid m) = Some m"
    by (rule fold_upd_member) (use assms(2) u in auto)
  then show ?thesis by (simp add: add_Returned_fields(6) [OF assms(1)])
qed

lemma add_Returned_byId:
  assumes "add its opts c = Returned c'" "m \<in> item_model ` set its" "truthy_id (id_m m)"
  shows "byId c' (key (id_m m)) = Some m"
proof -
  from add_Returned [OF assms(1)] obtain cids c1
    where r: "add_check its Map.empty Map.empty c = Inr (map item_model its, cids, c1)" by blast
  from add_check_Inr [OF r]
  have d: "distinct (filter (\<lambda>i. \<not> isNullOrUndefined i) (map id_m (map item_model its)))"
    by blast
  have u: "m' = m" if "m' \<in> set (map item_model its)" "truthy_id (id_m m')"
    "key (id_m m') = key (id_m m)" for m'
  proof -
    have "id_m m' = id_m m"
      using that(2,3) assms(3) key_inj_on_str [of "id_m m'" "id_m m"] truthy_not_null
      by blast
    from unique_by_filter [OF d that(1) _ _ this] assms(2) that(2) show ?thesis
      by (auto simp: truthy_not_null)
  qed
  have "fold (\<lambda>m d. if truthy_id (id_m m) then d(key (id_m m) \<mapsto> m) else d)
          (map item_model its) (byId c) (key (id_m m)) = Some m"
    by (rule fold_upd_member) (use assms(2,3) u in auto)
  then show ?thesis by (simp add: add_Returned_fields(7) [OF assms(1)])
qed

lemma reset_Returned_fields:
  assumes "reset xs opts c = Returned c'"
    and "ms = map item_model (case xs of None \<Rightarrow> [] | Some ys \<Rightarrow> ys)"
  shows "length_c c' = int (length ms)"
    and "length (models c') = length ms"
    and "set (models c') = set ms"
    and "comparator c' = comparator c"
    and "comparator c = None \<Longrightarrow> models c' = ms"
    and "comparator c = Some cmp \<Longrightarrow> consistent_comparator cmp \<Longrightarrow> in_order cmp (models c')"
    and "listeners c' = filter (\<lambda>x. x \<notin> set (models c)) (listeners c) @ ms"
    and "events c' = events c @ (if silent opts then [] else [Event OnCollection EvReset None None])"
    and "byCid c' k = Some m \<longleftrightarrow> m \<in> set ms \<and> cid m = k"
    and "byId c' k = Some m \<longleftrightarrow> m \<in> set ms \<and> truthy_id (id_m m) \<and> key (id_m m) = k"
    and "collection_of c' x =
           (if (Instance x \<in> set (case xs of None \<Rightarrow> [] | Some ys \<Rightarrow> ys) \<and>
                (collection_of c x = Unset \<or> (x \<in> set (models c) \<and> collection_of c x = This))) \<or>
               (\<exists>v. Bare x v \<in> set (case xs of None \<Rightarrow> [] | Some ys \<Rightarrow> ys))
            then This
            else if x \<in> set (models c) \<and> collection_of c x = This then Unset
            else collection_of c x)"
proof -
  let ?ys = "case xs of None \<Rightarrow> [] | Some ys \<Rightarrow> ys"
  let ?c2 = "reset_internal (fold removeReference (models c) c)"
  let ?so = "\<lparr>at = None, silent = True, wait = False, success = False\<rparr>"
  from reset_Returned [OF assms(1)] obtain c3 where
    a: "add ?ys ?so ?c2 = Returned c3"
    and c': "c' = (if silent opts then c3 else trigger_collection EvReset c3)" by blast
  note f = add_Returned_fields [OF a]
  have c2: "models ?c2 = []" "length_c ?c2 = 0" "byId ?c2 = Map.empty" "byCid ?c2 = Map.empty"
    "comparator ?c2 = comparator c" "events ?c2 = events c"
    "listeners ?c2 = filter (\<lambda>x. x \<notin> set (models c)) (listeners c)"
    "\<And>x. collection_of ?c2 x =
       (if x \<in> set (models c) \<and> collection_of c x = This then Unset else collection_of c x)"
    by (simp_all add: reset_internal_def fold_removeReference_fields)
  show "length_c c' = int (length ms)"
    by (simp add: c' trigger_collection_fields f(1) c2 assms(2))
  show "length (models c') = length ms"
    by (simp add: c' trigger_collection_fields f(2) c2 assms(2))
  show "set (models c') = set ms"
    by (simp add: c' trigger_collection_fields f(3) c2 assms(2))
  show "comparator c' = comparator c"
    by (simp add: c' trigger_collection_fields f(4) c2)
  show "comparator c = None \<Longrightarrow> models c' = ms"
    using f(8) by (simp add: c' trigger_collection_fields c2 assms(2) splice_insert_def splice_start_def)
  show "comparator c = Some cmp \<Longrightarrow> consistent_comparator cmp \<Longrightarrow> in_order cmp (models c')"
    using f(9) [of cmp] by (simp add: c' trigger_collection_fields c2)
  show "listeners c' = filter (\<lambda>x. x \<notin> set (models c)) (listeners c) @ ms"
    by (simp add: c' trigger_collection_fields f(5) c2 assms(2))
  show "events c' = events c @ (if silent opts then [] else [Event OnCollection EvReset None None])"
    using f(10) by (simp add: c' trigger_collection_fields c2)
  show "byCid c' k = Some m \<longleftrightarrow> m \<in> set ms \<and> cid m = k"
  proof
    assume "byCid c' k = Some m"
    then have "fold (\<lambda>m d. if True then d(cid m \<mapsto> m) else d) ms Map.empty k = Some m"
      by (simp add: c' trigger_collection_fields f(6) c2 assms(2) split: if_splits)
    from fold_upd_cases [OF this] show "m \<in> set ms \<and> cid m = k" by simp
  next
    assume "m \<in> set ms \<and> cid m = k"
    with add_Returned_byCid [OF a, of m] show "byCid c' k = Some m"
      by (auto simp: c' trigger_collection_fields assms(2))
  qed
  show "byId c' k = Some m \<longleftrightarrow> m \<in> set ms \<and> truthy_id (id_m m) \<and> key (id_m m) = k"
  proof
    assume "byId c' k = Some m"
    then have "fold (\<lambda>m d. if truthy_id (id_m m) then d(key (id_m m) \<mapsto> m) else d) ms Map.empty k = Some m"
      by (simp add: c' trigger_collection_fields f(7) c2 assms(2) split: if_splits)
    from fold_upd_cases [OF this] show "m \<in> set ms \<and> truthy_id (id_m m) \<and> key (id_m m) = k"
      by simp
  next
    assume "m \<in> set ms \<and> truthy_id (id_m m) \<and> key (id_m m) = k"
    with add_Returned_byId [OF a, of m] show "byId c' k = Some m"
      by (auto simp: c' trigger_collection_fields assms(2))
  qed
  show "collection_of c' x =
           (if (Instance x \<in> set ?ys \<and>
                (collection_of c x = Unset \<or> (x \<in> set (models c) \<and> collection_of c x = This))) \<or>
               (\<exists>v. Bare x v \<in> set ?ys)
            then This
            else if x \<in> set (models c) \<and> collection_of c x = This then Unset
            else collection_of c x)"
    using add_Returned_collection_of [OF a, of x]
    by (auto simp: c' trigger_collection_fields c2)
qed

lemma add_silent_events:
  "silent opts \<Longrightarrow> events (state_of (add its opts c)) = events c"
proof (cases "add its opts c")
  case (Returned c')
  assume "silent opts"
  with add_Returned_fields(10) [OF Returned] Returned show ?thesis by simp
next
  case (Thrown e c')
  from add_Thrown [OF Thrown] add_check_frame [of its Map.empty Map.empty c e c'] Thrown
  show ?thesis by (simp add: frame_def)
qed

lemma reset_silent_events:
  "silent opts \<Longrightarrow> events (state_of (reset xs opts c)) = events c"
proof -
  let ?ys = "case xs of None \<Rightarrow> [] | Some ys \<Rightarrow> ys"
  let ?c2 = "reset_internal (fold removeReference (models c) c)"
  let ?so = "\<lparr>at = None, silent = True, wait = False, success = False\<rparr>"
  assume s: "silent opts"
  have e: "events (state_of (add ?ys ?so ?c2)) = events c"
    using add_silent_events [of ?so ?ys ?c2]
    by (simp add: reset_internal_def fold_removeReference_fields)
  show ?thesis
    using e s by (cases "add ?ys ?so ?c2") (simp_all add: reset_def Let_def)
qed

text \<open>
  When the \<^verbatim>\<open>add\<close> inside \<^verbatim>\<open>reset\<close> throws, \<^verbatim>\<open>reset\<close> throws the same error: the
  collection has been emptied and no event has been triggered.
\<close>

lemma reset_Thrown:
  assumes "reset xs opts c = Thrown e c'"
  shows "models c' = []" "length_c c' = 0" "byId c' = Map.empty" "byCid c' = Map.empty"
    "events c' = events c"
    "e = DuplicateCid \<or> e = DuplicateId \<or> e = InvalidModel"
proof -
  let ?ys = "case xs of None \<Rightarrow> [] | Some ys \<Rightarrow> ys"
  let ?c2 = "reset_internal (fold removeReference (models c) c)"
  let ?so = "\<lparr>at = None, silent = True, wait = False, success = False\<rparr>"
  from assms have a: "add ?ys ?so ?c2 = Thrown e c'"
    by (cases "add ?ys ?so ?c2") (simp_all add: reset_def Let_def)
  note k = add_Thrown [OF a]
  from add_check_frame [of ?ys Map.empty Map.empty ?c2 e c'] k have f: "frame ?c2 c'" by simp
  have c2: "models ?c2 = []" "length_c ?c2 = 0" "byId ?c2 = Map.empty" "byCid ?c2 = Map.empty"
    "events ?c2 = events c"
    by (simp_all add: reset_internal_def fold_removeReference_fields)
  from f c2 show "models c' = []" "length_c c' = 0" "byId c' = Map.empty" "byCid c' = Map.empty"
    "events c' = events c"
    by (simp_all add: frame_def)
  from add_check_errors [OF k] show "e = DuplicateCid \<or> e = DuplicateId \<or> e = InvalidModel"
    by blast
qed

lemma get_indexed:
  assumes "byId c (key (id_m m)) = Some m" "truthy_id (id_m m)"
  shows "get c (AString (key (id_m m))) = RModel m" "get c (AModel m) = RModel m"
proof -
  from assms(2) have "key (id_m m) \<noteq> []" by (cases "id_m m") simp_all
  with assms show "get c (AString (key (id_m m))) = RModel m" "get c (AModel m) = RModel m"
    by (simp_all add: get_def lookup_def)
qed

section \<open>create\<close>

lemma create_invalid:
  assumes "\<not> item_valid it"
  shows "create it opts c = ReturnedFalse (snd (prepareModel it c))"
proof -
  obtain r c0 where p: "prepareModel it c = (r, c0)" by (cases "prepareModel it c")
  with prepareModel_fst [of it c] assms have "r = None" by simp
  with p show ?thesis by (simp add: create_def)
qed

lemma create_valid:
  assumes "item_valid it"
  shows "create it opts c =
     (if \<not> wait opts
      then (case add [Instance (item_model it)] opts (snd (prepareModel it c)) of
              Thrown e c2 \<Rightarrow> CreateThrown e c2
            | Returned c2 \<Rightarrow>
                ReturnedModel (item_model it)
                  (add_options_index [Instance (item_model it)] opts None (snd (prepareModel it c)))
                  c2)
      else ReturnedModel (item_model it) None (snd (prepareModel it c)))"
proof -
  obtain r c0 where p: "prepareModel it c = (r, c0)" by (cases "prepareModel it c")
  with prepareModel_fst [of it c] assms have "r = Some (item_model it)" by simp
  with p show ?thesis by (simp add: create_def split: outcome.splits)
qed

lemma prepareModel_validation_errors:
  "validation_errors (snd (prepareModel it c)) =
     validation_errors c @ (case it of Bare m InvalidEvent \<Rightarrow> [m] | _ \<Rightarrow> [])"
  by (cases it) (simp_all add: prepareModel_def Let_def split: validation.splits)

lemma add_Returned_member:
  assumes "add [Instance n] opts c = Returned c'"
  shows "n \<in> set (models c')"
  using add_Returned_fields(3) [OF assms] by simp

section \<open>remove\<close>

text \<open>
  An argument is skipped when neither index has an entry under its name and the
  name is not inherited from \<^verbatim>\<open>Object.prototype\<close>.
\<close>

lemma find_model_absent:
  assumes "byCid c (cid_key a) = None" "byId c (id_key a) = None"
    "cid_key a \<notin> set object_prototype" "id_key a \<notin> set object_prototype"
  shows "\<not> truthy_ret (find_model c a)"
  using assms by (cases a) (simp_all add: find_model_def get_def getByCid_def lookup_def)

lemma find_model_inherited:
  assumes "truthy_arg a" "byCid c (cid_key a) = None" "cid_key a \<in> set object_prototype"
  shows "find_model c a = RInherited (cid_key a)"
  using assms by (simp add: find_model_def getByCid_def lookup_def)

lemma find_model_inherited_name:
  assumes "find_model c a = RInherited k"
  shows "k \<in> set object_prototype \<and> (k = cid_key a \<or> k = id_key a)"
proof -
  have p: "property_ret (lookup d x) = RInherited k \<Longrightarrow> k \<in> set object_prototype \<and> k = x" for d x
    by (auto simp: lookup_def split: option.splits if_splits)
  have t: "truthy_arg a" using assms
    by (cases a) (auto simp: find_model_def get_def getByCid_def split: if_splits)
  from assms t show ?thesis
    by (auto simp: find_model_def get_def getByCid_def split: if_splits dest: p)
qed

text \<open>
  \<^verbatim>\<open>remove\<close> returns when no argument's name is inherited from
  \<^verbatim>\<open>Object.prototype\<close>.
\<close>

lemma remove_returns:
  "\<forall>a\<in>set as. cid_key a \<notin> set object_prototype \<and> id_key a \<notin> set object_prototype \<Longrightarrow>
     returned (remove as opts c)"
proof (induction as arbitrary: c)
  case Nil
  show ?case by simp
next
  case (Cons a as)
  show ?case
  proof (cases "truthy_ret (find_model c a)")
    case False
    from remove_Cons_skip [OF False, of as opts] Cons show ?thesis by simp
  next
    case True
    from truthy_find_model [OF True] show ?thesis
    proof
      assume "\<exists>m. find_model c a = RModel m"
      then obtain m where "find_model c a = RModel m" by blast
      from remove_Cons_model [OF this, of as opts] Cons show ?thesis by simp
    next
      assume "\<exists>k. find_model c a = RInherited k"
      then obtain k where "find_model c a = RInherited k" by blast
      from find_model_inherited_name [OF this] Cons.prems show ?thesis by auto
    qed
  qed
qed

lemma onModelEvent_pow_events:
  "events ((onModelEvent ev m True idx ^^ n) c) =
     events c @ replicate n (Event OnCollection ev (Some m) idx)"
proof (induction n)
  case 0
  show ?case by simp
next
  case (Suc n)
  have "replicate n x @ [x] = x # replicate n x" for x :: event
    by (simp add: replicate_append_same)
  with Suc show ?case by (simp add: onModelEvent_def)
qed

lemma trigger_model_events:
  "events (trigger_model t ev m idx c) =
     events c @ Event (OnModel t) ev (Some m) idx #
       replicate (count_list (listeners c) t) (Event OnCollection ev (Some m) idx)"
  by (simp add: trigger_model_def onModelEvent_pow_events)

text \<open>What \<^verbatim>\<open>remove\<close> does for one argument that finds a member.\<close>

lemma remove_member:
  assumes "find_model c a = RModel m" "m \<in> set (models c)"
  shows "returned (remove [a] opts c)"
    and "models (state_of (remove [a] opts c)) = remove1 m (models c)"
    and "length_c (state_of (remove [a] opts c)) = length_c c - 1"
    and "byCid (state_of (remove [a] opts c)) = (byCid c)(cid m := None)"
    and "byId (state_of (remove [a] opts c)) = (byId c)(key (id_m m) := None)"
    and "listeners (state_of (remove [a] opts c)) = removeAll m (listeners c)"
    and "events (state_of (remove [a] opts c)) =
           events c @
           (if silent opts then []
            else Event (OnModel m) EvRemove (Some m) (Some (indexOf (models c) m)) #
                 replicate (count_list (listeners c) m)
                   (Event OnCollection EvRemove (Some m) (Some (indexOf (models c) m))))"
    and "0 \<le> indexOf (models c) m \<and> models c ! nat (indexOf (models c) m) = m"
proof -
  from indexOf_member [OF assms(2)]
  have s: "splice_delete (indexOf (models c) m) (models c) = remove1 m (models c)"
    and i: "0 \<le> indexOf (models c) m \<and> models c ! nat (indexOf (models c) m) = m" by simp_all
  let ?c1 = "unlink (key (id_m m)) (cid m) (indexOf (models c) m) c"
  have u: "models ?c1 = remove1 m (models c)" "length_c ?c1 = length_c c - 1"
    "byCid ?c1 = (byCid c)(cid m := None)" "byId ?c1 = (byId c)(key (id_m m) := None)"
    "listeners ?c1 = listeners c" "events ?c1 = events c"
    by (simp_all add: unlink_def s)
  have r: "remove [a] opts c =
       Returned (removeReference m
            (if \<not> silent opts
             then trigger_model m EvRemove m (Some (indexOf (models c) m)) ?c1
             else ?c1))"
    using remove_Cons_model [OF assms(1), of "[]" opts] by simp
  show "returned (remove [a] opts c)" unfolding r by simp
  show "models (state_of (remove [a] opts c)) = remove1 m (models c)"
    unfolding r by (simp add: removeReference_fields trigger_model_fields u)
  show "length_c (state_of (remove [a] opts c)) = length_c c - 1"
    unfolding r by (simp add: removeReference_fields trigger_model_fields u)
  show "byCid (state_of (remove [a] opts c)) = (byCid c)(cid m := None)"
    unfolding r by (simp add: removeReference_fields trigger_model_fields u)
  show "byId (state_of (remove [a] opts c)) = (byId c)(key (id_m m) := None)"
    unfolding r by (simp add: removeReference_fields trigger_model_fields u)
  show "listeners (state_of (remove [a] opts c)) = removeAll m (listeners c)"
    unfolding r by (simp add: removeReference_fields trigger_model_fields u)
  show "events (state_of (remove [a] opts c)) =
           events c @
           (if silent opts then []
            else Event (OnModel m) EvRemove (Some m) (Some (indexOf (models c) m)) #
                 replicate (count_list (listeners c) m)
                   (Event OnCollection EvRemove (Some m) (Some (indexOf (models c) m))))"
    unfolding r by (simp add: removeReference_fields trigger_model_events u)
  show "0 \<le> indexOf (models c) m \<and> models c ! nat (indexOf (models c) m) = m" by (rule i)
qed

section \<open>Lookups in a consistent state\<close>

lemma consistent_empty: "consistent (fresh cmp elsewhere)"
  by (simp add: fresh_def consistent_reset_internal)

lemma consistent_no_entry:
  assumes "consistent c"
  shows "\<forall>m\<in>set (models c). key (id_m m) \<noteq> k \<Longrightarrow> byId c k = None"
    and "\<forall>m\<in>set (models c). cid m \<noteq> k \<Longrightarrow> byCid c k = None"
proof -
  show "byId c k = None" if "\<forall>m\<in>set (models c). key (id_m m) \<noteq> k"
  proof (cases "byId c k")
    case (Some m)
    with assms have "k = key (id_m m)" "m \<in> set (models c)" by (auto simp: consistent_def)
    with that show ?thesis by blast
  qed simp
  show "byCid c k = None" if "\<forall>m\<in>set (models c). cid m \<noteq> k"
  proof (cases "byCid c k")
    case (Some m)
    with assms have "k = cid m" "m \<in> set (models c)" by (auto simp: consistent_def)
    with that show ?thesis by blast
  qed simp
qed

section \<open>The invariant is kept\<close>

text \<open>
  From a state that satisfies the invariant of the data model, every call of
  \<^verbatim>\<open>add\<close>, \<^verbatim>\<open>remove\<close>, \<^verbatim>\<open>reset\<close> and \<^verbatim>\<open>sort\<close> that returns leaves the cached
  \<^verbatim>\<open>length\<close> equal to the number of models, and the invariant in place for the next
  call; \<^verbatim>\<open>reset\<close> and the constructor establish it from any state. A \<^verbatim>\<open>remove\<close>
  that throws leaves a state without the invariant.
\<close>

lemma consistent_preserved:
  assumes "consistent c"
  shows "(returned (add items opts c) \<longrightarrow>
            consistent (state_of (add items opts c)) \<and>
            length_c (state_of (add items opts c)) =
              int (length (models (state_of (add items opts c))))) \<and>
         (returned (remove args opts c) \<longrightarrow>
            consistent (state_of (remove args opts c)) \<and>
            length_c (state_of (remove args opts c)) =
              int (length (models (state_of (remove args opts c))))) \<and>
         (returned (reset xs opts c0) \<longrightarrow>
            consistent (state_of (reset xs opts c0)) \<and>
            length_c (state_of (reset xs opts c0)) =
              int (length (models (state_of (reset xs opts c0))))) \<and>
         (returned (sort_c opts c) \<longrightarrow>
            consistent (state_of (sort_c opts c)) \<and>
            length_c (state_of (sort_c opts c)) =
              int (length (models (state_of (sort_c opts c))))) \<and>
         (returned (Collection xs cmp elsewhere) \<longrightarrow>
            consistent (state_of (Collection xs cmp elsewhere)) \<and>
            length_c (state_of (Collection xs cmp elsewhere)) =
              int (length (models (state_of (Collection xs cmp elsewhere)))))"
proof -
  have 1: "consistent (state_of (add items opts c))" if "returned (add items opts c)"
    using consistent_add [OF assms returned_state [OF that]] .
  have 2: "consistent (state_of (remove args opts c))" if "returned (remove args opts c)"
    using consistent_remove [OF assms returned_state [OF that]] .
  have 3: "consistent (state_of (reset xs opts c0))" if "returned (reset xs opts c0)"
    using consistent_reset [OF returned_state [OF that]] .
  have 4: "consistent (state_of (sort_c opts c))" if "returned (sort_c opts c)"
    using consistent_sort [OF assms returned_state [OF that]] .
  have 5: "consistent (state_of (Collection xs cmp elsewhere))"
    if "returned (Collection xs cmp elsewhere)"
    using consistent_Collection [OF returned_state [OF that]] .
  from 1 2 3 4 5 show ?thesis by (blast intro: consistent_length)
qed

section \<open>Evaluating the functions on concrete inputs\<close>

lemmas eval_defs =
  add_def prepareModel_def lookup_def sort_c_def order_models_def sortBy_def array_sort_def
  sort_by_def criteria_le_def splice_insert_def splice_delete_def splice_start_def
  trigger_model_def trigger_collection_def onModelEvent_def model_on_def model_off_def
  reset_internal_def removeReference_def unlink_def get_def getByCid_def find_model_def
  reset_def fresh_def object_prototype_def Let_def

section \<open>The properties of the specification\<close>

text \<open>
  C1, as amended. When the inputs of \<^verbatim>\<open>add\<close> hold a duplicate (two items with
  one client id, or with one non-empty id, or an item that collides with an
  indexed member), \<^verbatim>\<open>add\<close> throws and \<^verbatim>\<open>models\<close>, \<^verbatim>\<open>length\<close>, \<^verbatim>\<open>_byId\<close> and
  \<^verbatim>\<open>_byCid\<close> are what they were before the call. The error is that of the first
  item, in the order of the inputs, that the checking loop has something against,
  every item before it being accepted: the invalid-model error when that item
  fails validation, and otherwise a duplicate error, for its client id or else
  for its id.
\<close>

theorem add_duplicate_no_insertion:
  assumes "duplicate items c"
  shows "\<exists>i e c'. i < length items \<and> add items opts c = Thrown e c' \<and>
           refusal items c i = Some e \<and> (\<forall>j<i. refusal items c j = None) \<and>
           (if item_valid (items ! i) then e = DuplicateCid \<or> e = DuplicateId
            else e = InvalidModel) \<and>
           models c' = models c \<and> length_c c' = length_c c \<and>
           byId c' = byId c \<and> byCid c' = byCid c"
proof -
  from duplicate_refused [OF assms] obtain e c1
    where r: "add_check items Map.empty Map.empty c = Inl (e, c1)" by blast
  have t: "add items opts c = Thrown e c1" using r by (rule add_of_Inl)
  have f: "frame c c1" using add_check_frame [of items Map.empty Map.empty c e c1] r by simp
  from add_check_refusal [OF r] obtain i where i: "i < length items"
    "refusal items c i = Some e" "\<forall>j<i. refusal items c j = None" by blast
  have k: "if item_valid (items ! i) then e = DuplicateCid \<or> e = DuplicateId else e = InvalidModel"
    using i(2) by (auto simp: refusal_def refuse_def split: if_splits)
  from t f i k show ?thesis unfolding frame_def by blast
qed

theorem add_duplicate_no_insertion_witness:
  "duplicate [Instance m1, Instance m1, Bare m2 InvalidEvent] empty_collection \<and>
   refusal [Instance m1, Instance m1, Bare m2 InvalidEvent] empty_collection 0 = None \<and>
   refusal [Instance m1, Instance m1, Bare m2 InvalidEvent] empty_collection 1 = Some DuplicateCid \<and>
   refusal [Instance m1, Instance m1, Bare m2 InvalidEvent] empty_collection 2 = Some InvalidModel \<and>
   thrown (add [Instance m1, Instance m1, Bare m2 InvalidEvent] no_options empty_collection)
     = Some DuplicateCid \<and>
   models (state_of (add [Instance m1, Instance m1, Bare m2 InvalidEvent] no_options empty_collection)) = [] \<and>
   length_c (state_of (add [Instance m1, Instance m1, Bare m2 InvalidEvent] no_options empty_collection)) = 0 \<and>
   byId (state_of (add [Instance m1, Instance m1, Bare m2 InvalidEvent] no_options empty_collection)) = Map.empty \<and>
   byCid (state_of (add [Instance m1, Instance m1, Bare m2 InvalidEvent] no_options empty_collection)) = Map.empty"
proof -
  let ?its = "[Instance m1, Instance m1, Bare m2 InvalidEvent]"
  have d: "duplicate ?its empty_collection"
    by (simp add: duplicate_def)
  have r0: "refusal ?its empty_collection 0 = None"
    by (simp add: refusal_def refuse_def cid_clash_def id_clash_def empty_collection_def
          fresh_def reset_internal_def m1_def object_prototype_def)
  have r1: "refusal ?its empty_collection 1 = Some DuplicateCid"
    by (simp add: refusal_def refuse_def cid_clash_def)
  have r2: "refusal ?its empty_collection 2 = Some InvalidModel"
    by (simp add: refusal_def refuse_def)
  have e: "models empty_collection = []" "length_c empty_collection = 0"
    "byId empty_collection = Map.empty" "byCid empty_collection = Map.empty"
    by (simp_all add: empty_collection_def fresh_def reset_internal_def)
  from add_duplicate_no_insertion [OF d, of no_options] obtain i e c' where
    t: "i < length ?its" "add ?its no_options empty_collection = Thrown e c'"
      "refusal ?its empty_collection i = Some e" "\<forall>j<i. refusal ?its empty_collection j = None"
      "models c' = models empty_collection" "length_c c' = length_c empty_collection"
      "byId c' = byId empty_collection" "byCid c' = byCid empty_collection"
    by blast
  have "i = 1"
  proof (rule ccontr)
    assume n: "i \<noteq> 1"
    from t(1) n consider "i = 0" | "i = 2" by (auto simp: less_Suc_eq)
    then show False
    proof cases
      case 1
      with t(3) r0 show False by simp
    next
      case 2
      with t(4) have "refusal ?its empty_collection 1 = None" by simp
      with r1 show False by simp
    qed
  qed
  with t(3) r1 have "e = DuplicateCid" by simp
  with t e d r0 r1 r2 show ?thesis by simp
qed


text \<open>
  C1 as stated fails: with an invalid bare item before two references to one
  model, the inputs hold a duplicate and the error is the invalid-model error, not
  a duplicate error.
\<close>

theorem add_duplicate_invalid_first:
  "duplicate [Bare m2 InvalidEvent, Instance m1, Instance m1] empty_collection \<and>
   thrown (add [Bare m2 InvalidEvent, Instance m1, Instance m1] no_options empty_collection)
     = Some InvalidModel"
  by (simp add: duplicate_def add_def prepareModel_def Let_def)


text \<open>
  C2 fails on the code. On an empty collection \<^verbatim>\<open>remove('constructor')\<close> finds
  the function that \<^verbatim>\<open>Object.prototype\<close> holds under that name, decrements
  \<^verbatim>\<open>length\<close> and then throws. When the caller has caught the error, an \<^verbatim>\<open>add\<close> of
  one model completes, with \<^verbatim>\<open>length\<close> 0 and one model in \<^verbatim>\<open>models\<close>.
\<close>

theorem length_wrong_after_thrown_remove:
  "thrown (remove [AString ''constructor''] no_options empty_collection) = Some TypeError \<and>
   length_c (state_of (remove [AString ''constructor''] no_options empty_collection)) = - 1 \<and>
   models (state_of (remove [AString ''constructor''] no_options empty_collection)) = [] \<and>
   returned (add [Instance m1] no_options
               (state_of (remove [AString ''constructor''] no_options empty_collection))) \<and>
   length_c (state_of (add [Instance m1] no_options
               (state_of (remove [AString ''constructor''] no_options empty_collection)))) = 0 \<and>
   models (state_of (add [Instance m1] no_options
               (state_of (remove [AString ''constructor''] no_options empty_collection)))) = [m1]"
  by (simp add: eval_defs no_options_def nowhere_def empty_collection_def m1_def)





text \<open>
  C4. A \<^verbatim>\<open>reset\<close> that returns has detached every former member that is not among
  the new items (no registration of the handler on it is left, and its back
  reference is not this collection), holds exactly the new models, with
  \<^verbatim>\<open>length\<close>, \<^verbatim>\<open>_byId\<close> and \<^verbatim>\<open>_byCid\<close> built from them alone and each new model
  listened to, and has triggered one \<^verbatim>\<open>reset\<close> event on the collection and nothing
  else, or nothing at all when silenced. Afterwards \<^verbatim>\<open>get\<close> on the non-empty id
  of a new member returns that member.
\<close>

theorem reset_replaces_members:
  assumes "reset xs opts c = Returned c'"
    and "ms = map item_model (case xs of None \<Rightarrow> [] | Some ys \<Rightarrow> ys)"
  shows "(\<forall>m\<in>set (models c). m \<notin> set ms \<longrightarrow>
            m \<notin> set (listeners c') \<and> collection_of c' m \<noteq> This) \<and>
         length_c c' = int (length ms) \<and> length (models c') = length ms \<and>
         set (models c') = set ms \<and> (comparator c = None \<longrightarrow> models c' = ms) \<and>
         (\<forall>k m. byCid c' k = Some m \<longleftrightarrow> m \<in> set ms \<and> cid m = k) \<and>
         (\<forall>k m. byId c' k = Some m \<longleftrightarrow> m \<in> set ms \<and> truthy_id (id_m m) \<and> key (id_m m) = k) \<and>
         listeners c' = filter (\<lambda>x. x \<notin> set (models c)) (listeners c) @ ms \<and>
         events c' = events c @ (if silent opts then [] else [Event OnCollection EvReset None None]) \<and>
         (\<forall>m\<in>set ms. truthy_id (id_m m) \<longrightarrow>
            get c' (AString (key (id_m m))) = RModel m \<and> get c' (AModel m) = RModel m)"
proof -
  note f = reset_Returned_fields [OF assms]
  have 1: "m \<notin> set (listeners c') \<and> collection_of c' m \<noteq> This"
    if "m \<in> set (models c)" "m \<notin> set ms" for m
  proof -
    have "Instance m \<notin> set (case xs of None \<Rightarrow> [] | Some ys \<Rightarrow> ys)"
      using that(2) assms(2) by force
    moreover have "\<forall>v. Bare m v \<notin> set (case xs of None \<Rightarrow> [] | Some ys \<Rightarrow> ys)"
      using that(2) assms(2) by force
    ultimately show ?thesis using that by (simp add: f(7) f(11))
  qed
  have 2: "get c' (AString (key (id_m m))) = RModel m \<and> get c' (AModel m) = RModel m"
    if "m \<in> set ms" "truthy_id (id_m m)" for m
  proof -
    from that have "byId c' (key (id_m m)) = Some m" by (simp add: f(10))
    from get_indexed [OF this that(2)] show ?thesis by simp
  qed
  from 1 2 f(1,2,3,5,7,8,9,10) show ?thesis by blast
qed

theorem reset_replaces_members_witness:
  "returned (reset (Some [Instance m3, Instance m1]) no_options two_members) \<and>
   models two_members = [m1, m2] \<and>
   m2 \<notin> set (listeners (state_of (reset (Some [Instance m3, Instance m1]) no_options two_members))) \<and>
   collection_of (state_of (reset (Some [Instance m3, Instance m1]) no_options two_members)) m2 \<noteq> This \<and>
   models (state_of (reset (Some [Instance m3, Instance m1]) no_options two_members)) = [m3, m1] \<and>
   length_c (state_of (reset (Some [Instance m3, Instance m1]) no_options two_members)) = 2 \<and>
   events (state_of (reset (Some [Instance m3, Instance m1]) no_options two_members)) =
     events two_members @ [Event OnCollection EvReset None None] \<and>
   get (state_of (reset (Some [Instance m3, Instance m1]) no_options two_members)) (AString ''x1'')
     = RModel m1"
proof -
  let ?r = "reset (Some [Instance m3, Instance m1]) no_options two_members"
  have r: "returned ?r"
    by (simp add: eval_defs no_options_def nowhere_def empty_collection_def m1_def m2_def m3_def
          two_members_def)
  have ms: "[m3, m1] = map item_model (case Some [Instance m3, Instance m1] of None \<Rightarrow> [] | Some ys \<Rightarrow> ys)"
    by simp
  have m: "models two_members = [m1, m2]"
    by (simp add: eval_defs no_options_def nowhere_def empty_collection_def m1_def m2_def m3_def
          two_members_def)
  have cm: "comparator two_members = None"
    by (simp add: eval_defs no_options_def nowhere_def empty_collection_def m1_def m2_def m3_def
          two_members_def)
  have d: "m2 \<noteq> m3" "m2 \<noteq> m1" by (simp_all add: m1_def m2_def m3_def)
  have i: "truthy_id (id_m m1)" "key (id_m m1) = ''x1''" by (simp_all add: m1_def)
  have s: "\<not> silent no_options" by (simp add: no_options_def)
  from reset_replaces_members [OF returned_state [OF r] ms] r m cm d i s
  show ?thesis by auto
qed


text \<open>
  C5. The check for a duplicate id is skipped for an id that is null or undefined:
  when every item lacks an id, \<^verbatim>\<open>add\<close> never throws the duplicate-id error,
  whatever the collection already holds.
\<close>

theorem add_without_id_never_duplicate_id:
  assumes "\<forall>it\<in>set items. isNullOrUndefined (id_m (item_model it))"
  shows "thrown (add items opts c) \<noteq> Some DuplicateId"
proof
  assume "thrown (add items opts c) = Some DuplicateId"
  then obtain c' where "add items opts c = Thrown DuplicateId c'"
    by (cases "add items opts c") auto
  then have "add_check items Map.empty Map.empty c = Inl (DuplicateId, c')"
    by (rule add_Thrown)
  from add_check_DuplicateId [OF this] assms show False by blast
qed

theorem add_without_id_never_duplicate_id_witness:
  "isNullOrUndefined (id_m m2) \<and> isNullOrUndefined (id_m m3) \<and> isNullOrUndefined (id_m m4) \<and>
   thrown (add [Instance m2, Instance m3] no_options empty_collection) \<noteq> Some DuplicateId \<and>
   returned (add [Instance m2, Instance m3] no_options empty_collection) \<and>
   thrown (add [Instance m4] no_options
             (state_of (add [Instance m2, Instance m3] no_options empty_collection)))
     \<noteq> Some DuplicateId \<and>
   returned (add [Instance m4] no_options
             (state_of (add [Instance m2, Instance m3] no_options empty_collection)))"
proof -
  have h1: "\<forall>it\<in>set [Instance m2, Instance m3]. isNullOrUndefined (id_m (item_model it))"
    by (simp add: m2_def m3_def)
  have h2: "\<forall>it\<in>set [Instance m4]. isNullOrUndefined (id_m (item_model it))"
    by (simp add: m4_def)
  have r1: "returned (add [Instance m2, Instance m3] no_options empty_collection)"
    by (simp add: eval_defs no_options_def nowhere_def empty_collection_def m2_def m3_def m4_def)
  have r2: "returned (add [Instance m4] no_options
             (state_of (add [Instance m2, Instance m3] no_options empty_collection)))"
    by (simp add: eval_defs no_options_def nowhere_def empty_collection_def m2_def m3_def m4_def)
  from add_without_id_never_duplicate_id [OF h1, of no_options empty_collection]
    add_without_id_never_duplicate_id [OF h2, of no_options
      "state_of (add [Instance m2, Instance m3] no_options empty_collection)"]
    h1 h2 r1 r2
  show ?thesis by simp
qed


text \<open>
  C6, as amended. \<^verbatim>\<open>get\<close> and \<^verbatim>\<open>getByCid\<close> are total: no argument makes them
  throw. For an empty (falsy) argument they return the argument itself: undefined
  for undefined, null for null, the empty string for the empty string. For a
  non-empty argument whose name is not indexed and is not a property name of
  \<^verbatim>\<open>Object.prototype\<close> they return undefined; in a consistent state that is the
  case whenever no member has the id (the client id) and the name is not such a
  property name.
\<close>

theorem get_absent_or_empty:
  "(\<not> truthy_arg a \<longrightarrow> get c a = arg_ret a \<and> getByCid c a = arg_ret a) \<and>
   (truthy_arg a \<and> byId c (id_key a) = None \<and> id_key a \<notin> set object_prototype
      \<longrightarrow> get c a = RUndefined) \<and>
   (truthy_arg a \<and> byCid c (cid_key a) = None \<and> cid_key a \<notin> set object_prototype
      \<longrightarrow> getByCid c a = RUndefined) \<and>
   (truthy_arg a \<and> consistent c \<and> (\<forall>m\<in>set (models c). key (id_m m) \<noteq> id_key a) \<and>
    id_key a \<notin> set object_prototype \<longrightarrow> get c a = RUndefined) \<and>
   (truthy_arg a \<and> consistent c \<and> (\<forall>m\<in>set (models c). cid m \<noteq> cid_key a) \<and>
    cid_key a \<notin> set object_prototype \<longrightarrow> getByCid c a = RUndefined)"
proof -
  have 1: "\<not> truthy_arg a \<Longrightarrow> get c a = arg_ret a \<and> getByCid c a = arg_ret a"
    by (simp add: get_def getByCid_def)
  have 2: "get c a = RUndefined"
    if "truthy_arg a" "byId c (id_key a) = None" "id_key a \<notin> set object_prototype"
    using that by (simp add: get_def lookup_def)
  have 3: "getByCid c a = RUndefined"
    if "truthy_arg a" "byCid c (cid_key a) = None" "cid_key a \<notin> set object_prototype"
    using that by (simp add: getByCid_def lookup_def)
  have 4: "get c a = RUndefined"
    if "truthy_arg a" "consistent c" "\<forall>m\<in>set (models c). key (id_m m) \<noteq> id_key a"
      "id_key a \<notin> set object_prototype"
    using 2 [OF that(1) consistent_no_entry(1) [OF that(2,3)] that(4)] .
  have 5: "getByCid c a = RUndefined"
    if "truthy_arg a" "consistent c" "\<forall>m\<in>set (models c). cid m \<noteq> cid_key a"
      "cid_key a \<notin> set object_prototype"
    using 3 [OF that(1) consistent_no_entry(2) [OF that(2,3)] that(4)] .
  from 1 2 3 4 5 show ?thesis by blast
qed

theorem get_absent_or_empty_witness:
  "get empty_collection AUndefined = RUndefined \<and>
   get empty_collection (AString []) = RString [] \<and>
   getByCid empty_collection ANull = RNull \<and>
   get empty_collection (AString ''x1'') = RUndefined \<and>
   getByCid empty_collection (AModel m1) = RUndefined \<and>
   consistent two_members \<and> models two_members = [m1, m2] \<and>
   get two_members (AString ''x2'') = RUndefined \<and>
   getByCid two_members (AString ''c3'') = RUndefined"
proof -
  have e: "byId empty_collection = Map.empty" "byCid empty_collection = Map.empty"
    by (simp_all add: empty_collection_def fresh_def reset_internal_def)
  have p: "''x1'' \<notin> set object_prototype" "''c1'' \<notin> set object_prototype"
    "''x2'' \<notin> set object_prototype" "''c3'' \<notin> set object_prototype"
    by (simp_all add: object_prototype_def)
  have r: "returned (add [Instance m1, Instance m2] no_options empty_collection)"
    by (simp add: eval_defs no_options_def nowhere_def empty_collection_def m1_def m2_def)
  have c: "consistent two_members"
    unfolding two_members_def
    by (rule consistent_add [OF _ returned_state [OF r]])
       (simp add: empty_collection_def consistent_empty)
  have m: "models two_members = [m1, m2]"
    by (simp add: eval_defs no_options_def nowhere_def empty_collection_def m1_def m2_def
          two_members_def)
  have k: "\<forall>m\<in>set (models two_members). key (id_m m) \<noteq> id_key (AString ''x2'')"
    "\<forall>m\<in>set (models two_members). cid m \<noteq> cid_key (AString ''c3'')"
    by (simp_all add: m m1_def m2_def)
  from get_absent_or_empty [of AUndefined empty_collection]
    get_absent_or_empty [of "AString []" empty_collection]
    get_absent_or_empty [of ANull empty_collection]
    get_absent_or_empty [of "AString ''x1''" empty_collection]
    get_absent_or_empty [of "AModel m1" empty_collection]
    get_absent_or_empty [of "AString ''x2''" two_members]
    get_absent_or_empty [of "AString ''c3''" two_members] e p c m k
  show ?thesis by (simp add: m1_def)
qed

text \<open>
  C6 as stated fails: \<^verbatim>\<open>get(null)\<close> is null and \<^verbatim>\<open>getByCid('')\<close> is the empty
  string, not undefined.
\<close>

theorem get_null_returns_null:
  "get empty_collection ANull = RNull \<and> RNull \<noteq> RUndefined \<and>
   getByCid empty_collection (AString []) = RString [] \<and> RString [] \<noteq> RUndefined"
  by (simp add: get_def getByCid_def)


text \<open>
  C7 fails on the code. The name \<^verbatim>\<open>constructor\<close> identifies no member of the
  collection of \<^verbatim>\<open>m1\<close> and \<^verbatim>\<open>m2\<close>, yet \<^verbatim>\<open>remove('constructor')\<close> does not skip it:
  \<^verbatim>\<open>this._byCid['constructor']\<close> is the function inherited from
  \<^verbatim>\<open>Object.prototype\<close>, which is at index -1, so the last model is spliced out and
  the length decremented while \<^verbatim>\<open>_byCid\<close> keeps the model; then the call throws a
  TypeError, the function having no \<^verbatim>\<open>trigger\<close>. On the empty collection the length
  becomes -1.
\<close>

theorem remove_inherited_name_throws:
  "models two_members = [m1, m2] \<and> length_c two_members = 2 \<and>
   byCid two_members ''constructor'' = None \<and> byId two_members ''constructor'' = None \<and>
   thrown (remove [AString ''constructor''] no_options two_members) = Some TypeError \<and>
   models (state_of (remove [AString ''constructor''] no_options two_members)) = [m1] \<and>
   length_c (state_of (remove [AString ''constructor''] no_options two_members)) = 1 \<and>
   byCid (state_of (remove [AString ''constructor''] no_options two_members)) ''c2'' = Some m2 \<and>
   length_c (state_of (remove [AString ''constructor''] no_options empty_collection)) = - 1"
  by (simp add: eval_defs no_options_def nowhere_def empty_collection_def m1_def m2_def
        two_members_def)


text \<open>
  C8, as amended. \<^verbatim>\<open>create\<close> with attributes that fail validation returns false;
  \<^verbatim>\<open>models\<close>, \<^verbatim>\<open>length\<close>, the indexes, the comparator, the registrations and the
  events of the collection are what they were. The model that was built and
  rejected has this collection as its \<^verbatim>\<open>collection\<close>, and the validation of the
  object layer has reported the failure on it, by an \<^verbatim>\<open>error\<close> event unless it
  called the error callback. With \<^verbatim>\<open>wait\<close> set, \<^verbatim>\<open>create\<close> returns the model with
  the same fields untouched, and the success continuation of the save is what
  adds the saved model; the \<^verbatim>\<open>sync\<close> event carries the options in which that
  \<^verbatim>\<open>add\<close> has written the index. With \<^verbatim>\<open>wait\<close> unset, \<^verbatim>\<open>create\<close> is the \<^verbatim>\<open>add\<close> of
  the model, which is a member when \<^verbatim>\<open>create\<close> returns, and the continuation adds
  nothing.
\<close>

theorem create_adds_now_or_on_success:
  "(\<not> item_valid it \<longrightarrow>
      create it opts c = ReturnedFalse (created (create it opts c)) \<and>
      frame c (created (create it opts c)) \<and>
      validation_errors (created (create it opts c)) =
        validation_errors c @ (case it of Bare b InvalidEvent \<Rightarrow> [b] | _ \<Rightarrow> []) \<and>
      collection_of (created (create it opts c)) = (collection_of c)(item_model it := This)) \<and>
   (item_valid it \<and> wait opts \<longrightarrow>
      create it opts c = ReturnedModel (item_model it) None (created (create it opts c)) \<and>
      frame c (created (create it opts c)) \<and>
      validation_errors (created (create it opts c)) = validation_errors c) \<and>
   (wait opts \<longrightarrow>
      (case add [Instance n] opts c1 of
         Thrown e c2 \<Rightarrow> create_success m opts idx n c1 = Thrown e c2
       | Returned c2 \<Rightarrow>
           n \<in> set (models c2) \<and>
           create_success m opts idx n c1 =
             Returned (if success opts then c2
                       else trigger_model n EvSync m
                              (add_options_index [Instance n] opts idx c1) c2))) \<and>
   (item_valid it \<and> \<not> wait opts \<longrightarrow>
      (case add [Instance (item_model it)] opts (snd (prepareModel it c)) of
         Thrown e c2 \<Rightarrow> create it opts c = CreateThrown e c2
       | Returned c2 \<Rightarrow>
           item_model it \<in> set (models c2) \<and>
           create it opts c =
             ReturnedModel (item_model it)
               (add_options_index [Instance (item_model it)] opts None (snd (prepareModel it c)))
               c2)) \<and>
   (\<not> wait opts \<longrightarrow>
      create_success m opts idx n c1 =
        Returned (if success opts then c1 else trigger_model n EvSync m idx c1) \<and>
      models (state_of (create_success m opts idx n c1)) = models c1 \<and>
      length_c (state_of (create_success m opts idx n c1)) = length_c c1 \<and>
      byId (state_of (create_success m opts idx n c1)) = byId c1 \<and>
      byCid (state_of (create_success m opts idx n c1)) = byCid c1 \<and>
      listeners (state_of (create_success m opts idx n c1)) = listeners c1)"
proof -
  let ?c0 = "snd (prepareModel it c)"
  have 1: "create it opts c = ReturnedFalse (created (create it opts c)) \<and>
      frame c (created (create it opts c)) \<and>
      validation_errors (created (create it opts c)) =
        validation_errors c @ (case it of Bare b InvalidEvent \<Rightarrow> [b] | _ \<Rightarrow> []) \<and>
      collection_of (created (create it opts c)) = (collection_of c)(item_model it := This)"
    if "\<not> item_valid it"
  proof -
    from that obtain b v where it: "it = Bare b v" by (cases it) simp_all
    have "collection_of ?c0 x = ((collection_of c)(item_model it := This)) x" for x
      using prepareModel_collection_of [of it c x] it by simp
    then have "collection_of ?c0 = (collection_of c)(item_model it := This)" by (rule ext)
    with create_invalid [OF that, of opts c] prepareModel_frame [of c it]
      prepareModel_validation_errors [of it c]
    show ?thesis by simp
  qed
  have 2: "create it opts c = ReturnedModel (item_model it) None (created (create it opts c)) \<and>
      frame c (created (create it opts c)) \<and>
      validation_errors (created (create it opts c)) = validation_errors c"
    if "item_valid it" "wait opts"
  proof -
    from create_valid [OF that(1), of opts c] that(2)
    have e: "create it opts c = ReturnedModel (item_model it) None ?c0" by simp
    have "validation_errors ?c0 = validation_errors c"
      using that(1) prepareModel_validation_errors [of it c]
      by (cases it) (auto split: validation.splits)
    with e prepareModel_frame [of c it] show ?thesis by simp
  qed
  have 3: "(case add [Instance n] opts c1 of
         Thrown e c2 \<Rightarrow> create_success m opts idx n c1 = Thrown e c2
       | Returned c2 \<Rightarrow>
           n \<in> set (models c2) \<and>
           create_success m opts idx n c1 =
             Returned (if success opts then c2
                       else trigger_model n EvSync m
                              (add_options_index [Instance n] opts idx c1) c2))"
    if "wait opts"
  proof (cases "add [Instance n] opts c1")
    case (Returned c2)
    from add_Returned_member [OF Returned] Returned that show ?thesis
      by (simp add: create_success_def)
  next
    case (Thrown e c2)
    with that show ?thesis by (simp add: create_success_def)
  qed
  have 4: "(case add [Instance (item_model it)] opts ?c0 of
         Thrown e c2 \<Rightarrow> create it opts c = CreateThrown e c2
       | Returned c2 \<Rightarrow>
           item_model it \<in> set (models c2) \<and>
           create it opts c =
             ReturnedModel (item_model it)
               (add_options_index [Instance (item_model it)] opts None ?c0) c2)"
    if "item_valid it" "\<not> wait opts"
  proof (cases "add [Instance (item_model it)] opts ?c0")
    case (Returned c2)
    from add_Returned_member [OF Returned] Returned create_valid [OF that(1), of opts c] that(2)
    show ?thesis by simp
  next
    case (Thrown e c2)
    with create_valid [OF that(1), of opts c] that(2) show ?thesis by simp
  qed
  have 5: "create_success m opts idx n c1 =
        Returned (if success opts then c1 else trigger_model n EvSync m idx c1) \<and>
      models (state_of (create_success m opts idx n c1)) = models c1 \<and>
      length_c (state_of (create_success m opts idx n c1)) = length_c c1 \<and>
      byId (state_of (create_success m opts idx n c1)) = byId c1 \<and>
      byCid (state_of (create_success m opts idx n c1)) = byCid c1 \<and>
      listeners (state_of (create_success m opts idx n c1)) = listeners c1"
    if "\<not> wait opts"
    using that by (simp add: create_success_def trigger_model_fields)
  from 1 2 3 4 5 show ?thesis by blast
qed

theorem create_adds_now_or_on_success_witness:
  "create (Bare m4 InvalidCallback) no_options two_members =
     ReturnedFalse (created (create (Bare m4 InvalidCallback) no_options two_members)) \<and>
   models (created (create (Bare m4 InvalidCallback) no_options two_members)) = [m1, m2] \<and>
   events (created (create (Bare m4 InvalidCallback) no_options two_members)) = events two_members \<and>
   validation_errors (created (create (Bare m4 InvalidCallback) no_options two_members)) = [] \<and>
   create (Bare m4 Valid) wait_options two_members =
     ReturnedModel m4 None (created (create (Bare m4 Valid) wait_options two_members)) \<and>
   models (created (create (Bare m4 Valid) wait_options two_members)) = [m1, m2] \<and>
   returned (create_success m4 wait_options None m4
               (created (create (Bare m4 Valid) wait_options two_members))) \<and>
   models (state_of (create_success m4 wait_options None m4
                       (created (create (Bare m4 Valid) wait_options two_members))))
     = [m1, m2, m4] \<and>
   events (state_of (create_success m4 wait_options None m4
                       (created (create (Bare m4 Valid) wait_options two_members))))
     = events two_members @
       [Event (OnModel m4) EvAdd (Some m4) (Some 2), Event OnCollection EvAdd (Some m4) (Some 2),
        Event (OnModel m4) EvSync (Some m4) (Some 2), Event OnCollection EvSync (Some m4) (Some 2)] \<and>
   create (Bare m4 Valid) no_options two_members =
     ReturnedModel m4 (Some 2) (created (create (Bare m4 Valid) no_options two_members)) \<and>
   models (created (create (Bare m4 Valid) no_options two_members)) = [m1, m2, m4] \<and>
   models (state_of (create_success m4 no_options (Some 2) m4
                       (created (create (Bare m4 Valid) no_options two_members))))
     = [m1, m2, m4]"
proof -
  let ?w = "created (create (Bare m4 Valid) wait_options two_members)"
  let ?n = "created (create (Bare m4 Valid) no_options two_members)"
  let ?f = "created (create (Bare m4 InvalidCallback) no_options two_members)"
  have v: "\<not> item_valid (Bare m4 InvalidCallback)" "item_valid (Bare m4 Valid)"
    "item_model (Bare m4 Valid) = m4" "wait wait_options" "\<not> wait no_options"
    "\<not> success wait_options"
    by (simp_all add: wait_options_def no_options_def)
  have a: "models two_members = [m1, m2]" "validation_errors two_members = []"
    by (simp_all add: eval_defs no_options_def nowhere_def empty_collection_def
          m1_def m2_def two_members_def)
  note t1 = create_adds_now_or_on_success [of "Bare m4 InvalidCallback" no_options two_members]
  from t1 v(1) have 1: "create (Bare m4 InvalidCallback) no_options two_members = ReturnedFalse ?f"
    "frame two_members ?f" "validation_errors ?f = validation_errors two_members @ []"
    by simp_all
  note t2 = create_adds_now_or_on_success [of "Bare m4 Valid" wait_options two_members]
  from t2 v have 2: "create (Bare m4 Valid) wait_options two_members = ReturnedModel m4 None ?w"
    "frame two_members ?w"
    by simp_all
  have w: "?w = two_members\<lparr>collection_of := (collection_of two_members)(m4 := This)\<rparr>"
    by (simp add: create_def prepareModel_def wait_options_def)
  have aw: "add [Instance m4] wait_options ?w =
      Returned (state_of (add [Instance m4] wait_options ?w))"
    "models (state_of (add [Instance m4] wait_options ?w)) = [m1, m2, m4]"
    "add_options_index [Instance m4] wait_options None ?w = Some 2"
    "events (state_of (add [Instance m4] wait_options ?w)) = events two_members @
       [Event (OnModel m4) EvAdd (Some m4) (Some 2), Event OnCollection EvAdd (Some m4) (Some 2)]"
    "count_list (listeners (state_of (add [Instance m4] wait_options ?w))) m4 = 1"
    unfolding w
    by (simp_all add: eval_defs add_options_index_def no_options_def nowhere_def
          empty_collection_def wait_options_def m1_def m2_def m4_def two_members_def)
  note t3 = create_adds_now_or_on_success [where it = "Bare m4 Valid" and c = two_members and
      opts = wait_options and n = m4 and ?c1.0 = ?w and m = m4 and idx = None]
  from t3 v(4) aw(1) have 3: "create_success m4 wait_options None m4 ?w =
      Returned (if success wait_options then state_of (add [Instance m4] wait_options ?w)
                else trigger_model m4 EvSync m4 (add_options_index [Instance m4] wait_options None ?w)
                       (state_of (add [Instance m4] wait_options ?w)))"
    by (cases "add [Instance m4] wait_options ?w") simp_all
  have 4: "returned (create_success m4 wait_options None m4 ?w)"
    "models (state_of (create_success m4 wait_options None m4 ?w)) = [m1, m2, m4]"
    "events (state_of (create_success m4 wait_options None m4 ?w)) = events two_members @
       [Event (OnModel m4) EvAdd (Some m4) (Some 2), Event OnCollection EvAdd (Some m4) (Some 2),
        Event (OnModel m4) EvSync (Some m4) (Some 2), Event OnCollection EvSync (Some m4) (Some 2)]"
    unfolding 3 using v(6) aw(2,3,4,5)
    by (simp_all add: trigger_model_fields trigger_model_def onModelEvent_def)
  have an: "add [Instance m4] no_options (snd (prepareModel (Bare m4 Valid) two_members)) =
      Returned (state_of (add [Instance m4] no_options (snd (prepareModel (Bare m4 Valid) two_members))))"
    "models (state_of (add [Instance m4] no_options (snd (prepareModel (Bare m4 Valid) two_members))))
       = [m1, m2, m4]"
    "add_options_index [Instance m4] no_options None (snd (prepareModel (Bare m4 Valid) two_members))
       = Some 2"
    by (simp_all add: eval_defs add_options_index_def no_options_def nowhere_def
          empty_collection_def m1_def m2_def m4_def two_members_def)
  note t5 = create_adds_now_or_on_success [of "Bare m4 Valid" no_options two_members]
  from t5 v an(1) have 5: "create (Bare m4 Valid) no_options two_members =
      ReturnedModel m4 (add_options_index [Instance m4] no_options None
                          (snd (prepareModel (Bare m4 Valid) two_members)))
        (state_of (add [Instance m4] no_options (snd (prepareModel (Bare m4 Valid) two_members))))"
    by (cases "add [Instance m4] no_options (snd (prepareModel (Bare m4 Valid) two_members))") simp_all
  have 6: "create (Bare m4 Valid) no_options two_members = ReturnedModel m4 (Some 2) ?n"
    "models ?n = [m1, m2, m4]"
    using 5 an(2,3) by simp_all
  note t7 = create_adds_now_or_on_success [where it = "Bare m4 Valid" and c = two_members and
      opts = no_options and n = m4 and ?c1.0 = ?n and m = m4 and idx = "Some 2"]
  from t7 v(5) have "models (state_of (create_success m4 no_options (Some 2) m4 ?n)) = models ?n"
    by blast
  with 6(2) have 7: "models (state_of (create_success m4 no_options (Some 2) m4 ?n)) = [m1, m2, m4]"
    by simp
  from 1 2 4 6 7 a show ?thesis by (simp add: frame_def)
qed


text \<open>
  C8 as stated fails: after a \<^verbatim>\<open>create\<close> with attributes that fail validation
  there has been an event, the \<^verbatim>\<open>error\<close> that the validation triggers on the
  rejected model, and that model refers to the collection.
\<close>

theorem create_invalid_triggers_error:
  "\<not> item_valid (Bare m4 InvalidEvent) \<and>
   validation_errors two_members = [] \<and>
   collection_of two_members m4 = Unset \<and>
   validation_errors (created (create (Bare m4 InvalidEvent) no_options two_members)) = [m4] \<and>
   collection_of (created (create (Bare m4 InvalidEvent) no_options two_members)) m4 = This"
  by (simp add: eval_defs create_def no_options_def nowhere_def empty_collection_def
        m1_def m2_def m4_def two_members_def)


text \<open>
  C9. Without a comparator \<^verbatim>\<open>sort\<close> throws and the state it leaves is the state
  it was called in.
\<close>

theorem sort_without_comparator:
  "comparator c = None \<Longrightarrow> sort_c opts c = Thrown NoComparator c"
  by (simp add: sort_c_def)

theorem sort_without_comparator_witness:
  "comparator empty_collection = None \<and>
   sort_c no_options empty_collection = Thrown NoComparator empty_collection"
proof -
  have h: "comparator empty_collection = None"
    by (simp add: empty_collection_def fresh_def reset_internal_def)
  show ?thesis using h sort_without_comparator [OF h, of no_options] by simp
qed


text \<open>
  C10. The constructor, given models, is a silent \<^verbatim>\<open>reset\<close> on the fresh object.
  Whether it returns or throws, the functions of the collection have triggered no
  event; when it returns,
  \<^verbatim>\<open>models\<close>, \<^verbatim>\<open>length\<close>, \<^verbatim>\<open>_byId\<close> and \<^verbatim>\<open>_byCid\<close> hold the given models.
\<close>

theorem construction_triggers_no_event:
  "events (state_of (Collection xs cmp elsewhere)) = [] \<and>
   Collection (Some ys) cmp elsewhere =
     reset (Some ys) \<lparr>at = None, silent = True, wait = False, success = False\<rparr> (fresh cmp elsewhere) \<and>
   (Collection (Some ys) cmp elsewhere = Returned c' \<longrightarrow>
      length_c c' = int (length ys) \<and> length (models c') = length ys \<and>
      set (models c') = item_model ` set ys \<and>
      (cmp = None \<longrightarrow> models c' = map item_model ys) \<and>
      (\<forall>k m. byCid c' k = Some m \<longleftrightarrow> m \<in> item_model ` set ys \<and> cid m = k) \<and>
      (\<forall>k m. byId c' k = Some m \<longleftrightarrow>
         m \<in> item_model ` set ys \<and> truthy_id (id_m m) \<and> key (id_m m) = k))"
proof -
  let ?so = "\<lparr>at = None, silent = True, wait = False, success = False\<rparr>"
  have f: "events (fresh cmp elsewhere) = []" "models (fresh cmp elsewhere) = []"
    "comparator (fresh cmp elsewhere) = cmp"
    by (simp_all add: fresh_def reset_internal_def)
  have 1: "events (state_of (Collection xs cmp elsewhere)) = []"
  proof (cases xs)
    case None
    then show ?thesis by (simp add: Collection_def f)
  next
    case (Some zs)
    with reset_silent_events [of ?so "Some zs" "fresh cmp elsewhere"] show ?thesis
      by (simp add: Collection_def f)
  qed
  have 2: "Collection (Some ys) cmp elsewhere = reset (Some ys) ?so (fresh cmp elsewhere)"
    by (simp add: Collection_def)
  have 3: "length_c c' = int (length ys) \<and> length (models c') = length ys \<and>
      set (models c') = item_model ` set ys \<and>
      (cmp = None \<longrightarrow> models c' = map item_model ys) \<and>
      (\<forall>k m. byCid c' k = Some m \<longleftrightarrow> m \<in> item_model ` set ys \<and> cid m = k) \<and>
      (\<forall>k m. byId c' k = Some m \<longleftrightarrow>
         m \<in> item_model ` set ys \<and> truthy_id (id_m m) \<and> key (id_m m) = k)"
    if "Collection (Some ys) cmp elsewhere = Returned c'"
  proof -
    from that 2 have r: "reset (Some ys) ?so (fresh cmp elsewhere) = Returned c'" by simp
    have ms: "map item_model ys = map item_model (case Some ys of None \<Rightarrow> [] | Some zs \<Rightarrow> zs)"
      by simp
    note g = reset_Returned_fields [OF r ms]
    from g(1,2,3,5,9,10) f show ?thesis by simp
  qed
  from 1 2 3 show ?thesis by blast
qed

theorem construction_triggers_no_event_witness:
  "returned (Collection (Some [Instance m1, Instance m2]) None nowhere) \<and>
   events (state_of (Collection (Some [Instance m1, Instance m2]) None nowhere)) = [] \<and>
   models (state_of (Collection (Some [Instance m1, Instance m2]) None nowhere)) = [m1, m2] \<and>
   length_c (state_of (Collection (Some [Instance m1, Instance m2]) None nowhere)) = 2 \<and>
   byCid (state_of (Collection (Some [Instance m1, Instance m2]) None nowhere)) ''c2'' = Some m2 \<and>
   byId (state_of (Collection (Some [Instance m1, Instance m2]) None nowhere)) ''x1'' = Some m1 \<and>
   events (state_of (Collection (Some [Instance m1, Instance m1]) None nowhere)) = []"
proof -
  let ?r = "Collection (Some [Instance m1, Instance m2]) None nowhere"
  have r: "returned ?r" by (simp add: eval_defs Collection_def nowhere_def m1_def m2_def)
  have i: "truthy_id (id_m m1)" "key (id_m m1) = ''x1''" "cid m2 = ''c2''"
    by (simp_all add: m1_def m2_def)
  note t = construction_triggers_no_event
         [of "Some [Instance m1, Instance m2]" None nowhere "[Instance m1, Instance m2]" "state_of ?r"]
  note u = construction_triggers_no_event [of "Some [Instance m1, Instance m1]" None nowhere]
  from t have e: "events (state_of ?r) = []" by (rule conjunct1)
  from u have e': "events (state_of (Collection (Some [Instance m1, Instance m1]) None nowhere)) = []"
    by (rule conjunct1)
  from t returned_state [OF r] have
    f: "length_c (state_of ?r) = int (length [Instance m1, Instance m2])"
       "models (state_of ?r) = map item_model [Instance m1, Instance m2]"
       "\<forall>k m. byCid (state_of ?r) k = Some m \<longleftrightarrow>
          m \<in> item_model ` set [Instance m1, Instance m2] \<and> cid m = k"
       "\<forall>k m. byId (state_of ?r) k = Some m \<longleftrightarrow>
          m \<in> item_model ` set [Instance m1, Instance m2] \<and> truthy_id (id_m m) \<and> key (id_m m) = k"
    by blast+
  from f(3) i have b1: "byCid (state_of ?r) ''c2'' = Some m2" by simp
  from f(4) i have b2: "byId (state_of ?r) ''x1'' = Some m1" by simp
  from r e e' f(1,2) b1 b2 show ?thesis by simp
qed

end
